(* ===== verification/Prelude.thy ===== *)
theory Prelude
  imports Main "HOL-Library.Sublist"
begin

text \<open>
  Shared vocabulary of the development. A JavaScript string is a sequence of
  UTF-16 code units; it is modelled as \<open>jstring = nat list\<close>, and a literal
  written with ASCII characters is converted by \<open>js\<close>. JavaScript arrays used as
  stacks (\<open>push\<close>, \<open>pop\<close>) are lists whose end is the top; \<open>pop\<close> on an empty
  array does nothing, as in JavaScript. The runtime failures of the source
  (\<open>TypeError\<close> when a property of \<open>undefined\<close> is read, \<open>SyntaxError\<close>
  from \<open>JSON.parse\<close>, the explicit \<open>throw\<close> of the query layer) are the values
  of the datatype \<open>error\<close>. The prelude also holds the list lemmas the
  components share.
\<close>

type_synonym jstring = "nat list"

definition js :: "string \<Rightarrow> jstring" where
  "js s = map of_char s"

datatype error =
    SyntaxError
  | TypeError_undefined_token
  | TypeError_undefined_result
  | TypeError_null_key
  | Invalid_parent_type
  | Out_of_fuel

definition js_push :: "'a list \<Rightarrow> 'a \<Rightarrow> 'a list" where
  "js_push xs x = xs @ [x]"

definition js_pop :: "'a list \<Rightarrow> 'a list" where
  "js_pop xs = butlast xs"

text \<open>\<open>String.prototype.lastIndexOf\<close> for one code unit: \<open>-1\<close> when absent.\<close>

primrec last_index_of :: "'a list \<Rightarrow> 'a \<Rightarrow> int" where
  "last_index_of [] x = -1"
| "last_index_of (y # ys) x =
     (let k = last_index_of ys x in
      if 0 \<le> k then k + 1 else if y = x then 0 else -1)"

text \<open>The first index at which a predicate holds (a \<open>for\<close> loop with an early return).\<close>

primrec first_index :: "('a \<Rightarrow> bool) \<Rightarrow> 'a list \<Rightarrow> nat option" where
  "first_index P [] = None"
| "first_index P (x # xs) = (if P x then Some 0 else map_option Suc (first_index P xs))"

named_theorems js_simps "evaluation rules for the JavaScript helpers"

declare js_push_def [js_simps] js_pop_def [js_simps] js_def [js_simps]

subsection \<open>Lemmas on the helpers\<close>

lemma last_index_of_neg: "x \<notin> set xs \<Longrightarrow> last_index_of xs x = -1"
  by (induction xs) (auto simp: Let_def)

lemma last_index_of_bounds:
  "x \<in> set xs \<Longrightarrow> 0 \<le> last_index_of xs x \<and> last_index_of xs x < int (length xs)"
proof (induction xs)
  case Nil
  then show ?case by simp
next
  case (Cons y ys)
  show ?case
  proof (cases "x \<in> set ys")
    case True
    with Cons.IH show ?thesis by (simp add: Let_def)
  next
    case False
    with Cons.prems show ?thesis by (simp add: Let_def last_index_of_neg)
  qed
qed

lemma last_index_of_nth:
  "x \<in> set xs \<Longrightarrow> xs ! nat (last_index_of xs x) = x"
proof (induction xs)
  case Nil
  then show ?case by simp
next
  case (Cons y ys)
  show ?case
  proof (cases "x \<in> set ys")
    case True
    with Cons.IH last_index_of_bounds [OF True] show ?thesis
      by (simp add: Let_def nat_add_distrib)
  next
    case False
    with Cons.prems show ?thesis by (simp add: Let_def last_index_of_neg)
  qed
qed

lemma last_index_of_after:
  "x \<in> set xs \<Longrightarrow> x \<notin> set (drop (nat (last_index_of xs x) + 1) xs)"
proof (induction xs)
  case Nil
  then show ?case by simp
next
  case (Cons y ys)
  show ?case
  proof (cases "x \<in> set ys")
    case True
    with Cons.IH last_index_of_bounds [OF True] show ?thesis
      by (simp add: Let_def nat_add_distrib)
  next
    case False
    with Cons.prems show ?thesis by (simp add: Let_def last_index_of_neg)
  qed
qed

lemma last_index_of_append:
  "last_index_of (a @ b) x =
     (if x \<in> set b then int (length a) + last_index_of b x else last_index_of a x)"
proof (induction a)
  case Nil
  then show ?case by (simp add: last_index_of_neg)
next
  case (Cons y a)
  show ?case
  proof (cases "x \<in> set b")
    case True
    with Cons.IH last_index_of_bounds [OF True] show ?thesis by (simp add: Let_def)
  next
    case False
    with Cons.IH show ?thesis by (simp add: Let_def)
  qed
qed

lemma takeWhile_rev_last_index_of:
  "x \<in> set s \<Longrightarrow>
   length (takeWhile (\<lambda>c. c \<noteq> x) (rev s)) = length s - 1 - nat (last_index_of s x)"
proof (induction s rule: rev_induct)
  case Nil
  then show ?case by simp
next
  case (snoc y s)
  show ?case
  proof (cases "y = x")
    case True
    then show ?thesis by (simp add: last_index_of_append)
  next
    case False
    with snoc.prems have x: "x \<in> set s" by simp
    from last_index_of_bounds [OF x] have "nat (last_index_of s x) < length s" by linarith
    with False x snoc.IH show ?thesis by (simp add: last_index_of_append)
  qed
qed

lemma first_index_Some:
  "first_index P xs = Some i \<Longrightarrow> i < length xs \<and> P (xs ! i) \<and> (\<forall>j<i. \<not> P (xs ! j))"
proof (induction xs arbitrary: i)
  case Nil
  then show ?case by simp
next
  case (Cons x xs)
  then show ?case
    by (auto split: if_splits simp: less_Suc_eq_0_disj)
qed

lemma first_index_None: "first_index P xs = None \<longleftrightarrow> (\<forall>x\<in>set xs. \<not> P x)"
  by (induction xs) auto

lemma first_index_distinct:
  "distinct xs \<Longrightarrow> i < length xs \<Longrightarrow> first_index (\<lambda>y. y = xs ! i) xs = Some i"
proof (induction xs arbitrary: i)
  case Nil
  then show ?case by simp
next
  case (Cons x xs)
  then show ?case
    by (cases i) (auto simp: nth_mem)
qed

lemma js_eq_iff [simp]: "js a = js b \<longleftrightarrow> a = b"
  by (auto simp: js_def inj_map_eq_map inj_def of_char_eq_iff)

lemma find_Some_mem: "find P xs = Some x \<Longrightarrow> x \<in> set xs \<and> P x"
  by (auto simp: find_Some_iff)

lemma find_snd_distinct:
  "distinct (map snd xs) \<Longrightarrow> (k, v) \<in> set xs \<Longrightarrow> find (\<lambda>kv. snd kv = v) xs = Some (k, v)"
  by (induction xs) (auto simp: rev_image_eqI)

lemma take_eq_length: "take k s = xs \<Longrightarrow> length xs = k \<Longrightarrow> k \<le> length s"
  by auto

lemma take_drop_Cons:
  "i < length xs \<Longrightarrow> take (Suc k) (drop i xs) = xs ! i # take k (drop (Suc i) xs)"
  by (simp add: Cons_nth_drop_Suc [symmetric])

lemma take_drop_snoc:
  "i \<le> j \<Longrightarrow> j < length xs \<Longrightarrow> take (Suc j - i) (drop i xs) = take (j - i) (drop i xs) @ [xs ! j]"
  by (simp add: Suc_diff_le take_Suc_conv_app_nth)

lemma take_drop_one: "cur < length ts \<Longrightarrow> take (Suc 0) (drop cur ts) = [ts ! cur]"
  using take_drop_Cons [of cur ts 0] by simp

lemma take_drop_enclosed:
  assumes "Suc cur \<le> c" "c < length ts"
  shows "take (Suc c - cur) (drop cur ts) = ts ! cur # take (c - Suc cur) (drop (Suc cur) ts) @ [ts ! c]"
proof -
  have e: "Suc c - cur = Suc (Suc c - Suc cur)" using assms(1) by simp
  have "take (Suc c - Suc cur) (drop (Suc cur) ts) = take (c - Suc cur) (drop (Suc cur) ts) @ [ts ! c]"
    by (rule take_drop_snoc) (use assms in auto)
  moreover have "cur < length ts" using assms by simp
  ultimately show ?thesis by (simp only: e take_drop_Cons)
qed

lemma take_drop_split:
  assumes "i \<le> j" and "j \<le> k"
  shows "take (k - i) (drop i xs) = take (j - i) (drop i xs) @ take (k - j) (drop j xs)"
proof -
  have k: "k - i = (j - i) + (k - j)" using assms by simp
  have "drop j xs = drop (j - i) (drop i xs)" using assms(1) by simp
  then show ?thesis by (simp only: k take_add)
qed

end
