(* ===== verification/Tokens.thy ===== *)
theory Tokens
  imports Prelude
begin

text \<open>
  The token shape shared by the tokenizer (\<open>src/src/json-tokenize.js\<close>), the AST
  builder and the path inference (\<open>src/src/json-parse-ast.js\<close>): the Monaco-style
  \<open>IPosition\<close> and \<open>IRange\<close> records, the token types the tokenizer emits, the
  decoded token values, and the \<open>Token\<close> record. A token's \<open>type\<close> is a string in
  the source; the seven strings \<open>tokenize\<close> produces are constructors here and any
  other string (a token built by a caller) is \<open>TOther\<close>.
\<close>

record ipos =
  lineNumber :: nat
  column :: nat

record irange =
  startLineNumber :: nat
  startColumn :: nat
  endLineNumber :: nat
  endColumn :: nat

datatype token_type =
    TInlineComment
  | TMultilineComment
  | TWhitespace
  | TString
  | TLiteral
  | TNumber
  | TPunctuation
  | TOther jstring

text \<open>
  The \<open>value\<close> field of a token: a string (decoded string literal, comment text,
  whitespace, punctuation character), a boolean, \<open>null\<close>, or a number. The number is
  kept as its numeral (the text \<open>+value\<close> converts); the IEEE-754 rounding is not
  modelled, and no operation of the program inspects a number's value.
\<close>

datatype jvalue =
    JString jstring
  | JBool bool
  | JNull
  | JNumber jstring

record token =
  ttype :: token_type
  position :: irange
  raw :: jstring
  tvalue :: jvalue

definition is_punct :: "token \<Rightarrow> string \<Rightarrow> bool" where
  "is_punct t s \<longleftrightarrow> ttype t = TPunctuation \<and> raw t = js s"

definition is_trivia :: "token \<Rightarrow> bool" where
  "is_trivia t \<longleftrightarrow> ttype t \<in> {TInlineComment, TMultilineComment, TWhitespace}"

end
