(* ===== verification/Lexer_Rules.thy ===== *)
theory Lexer_Rules
  imports Tokens
begin

text \<open>
  The lexical rules of \<open>src/src/json-tokenize.js\<close> (the \<open>tokenTypes\<close> table):
  one matcher per regular expression, each returning the length of the match at
  the start of the remaining input (the regexes are all anchored with \<open>^\<close>), and
  one creator per \<open>create\<close> callback. JavaScript's \<open>.\<close> does not match the line
  terminators (LF, CR, U+2028, U+2029) and \<open>\s\<close> is the ECMAScript white space
  and line terminator set; both are written out over UTF-16 code units. The
  string rule's creator runs \<open>JSON.parse\<close>, which throws on control characters
  and on escapes JSON does not have; that failure is \<open>Inl SyntaxError\<close>.
  The lemmas show that every rule consumes a non-empty prefix (needed for the
  termination of the scanning loop) and fix the shape of what the rules accept.
\<close>

subsection \<open>Character classes\<close>

definition is_line_terminator :: "nat \<Rightarrow> bool" where
  "is_line_terminator c \<longleftrightarrow> c = 10 \<or> c = 13 \<or> c = 8232 \<or> c = 8233"

definition is_js_space :: "nat \<Rightarrow> bool" where
  "is_js_space c \<longleftrightarrow>
     c \<in> {9, 10, 11, 12, 13, 32, 160, 5760, 8232, 8233, 8239, 8287, 12288, 65279}
     \<or> (8192 \<le> c \<and> c \<le> 8202)"

definition is_digit :: "nat \<Rightarrow> bool" where
  "is_digit c \<longleftrightarrow> 48 \<le> c \<and> c \<le> 57"

definition digits_len :: "jstring \<Rightarrow> nat" where
  "digits_len s = length (takeWhile is_digit s)"

subsection \<open>Matchers, one per regular expression\<close>

text \<open>\<open>/^\/\/.*/\<close>\<close>

definition match_inline_comment :: "jstring \<Rightarrow> nat option" where
  "match_inline_comment s =
     (if take 2 s = js ''//''
      then Some (2 + length (takeWhile (\<lambda>c. \<not> is_line_terminator c) (drop 2 s)))
      else None)"

text \<open>
  \<open>/^\/\*.*\*\//\<close>: \<open>.*\<close> is greedy and stays on one line, so the match runs
  to the last \<open>*/\<close> of the line, not the first.
\<close>

definition last_close :: "jstring \<Rightarrow> nat option" where
  "last_close line =
     find (\<lambda>k. take 2 (drop (k - 2) line) = js ''*/'') (rev [2..<Suc (length line)])"

definition match_multiline_comment :: "jstring \<Rightarrow> nat option" where
  "match_multiline_comment s =
     (if take 2 s = js ''/*''
      then map_option (\<lambda>k. 2 + k)
             (last_close (takeWhile (\<lambda>c. \<not> is_line_terminator c) (drop 2 s)))
      else None)"

text \<open>\<open>/^\s+/\<close>\<close>

definition match_whitespace :: "jstring \<Rightarrow> nat option" where
  "match_whitespace s =
     (let n = length (takeWhile is_js_space s) in if n = 0 then None else Some n)"

text \<open>
  \<open>/^"(?:[^"\\]|\\.)*"/\<close>: the body after the opening quote, up to and with the
  closing quote. The two alternatives start with different characters, so the
  regex never needs to backtrack and the scan is deterministic.
\<close>

fun string_body :: "jstring \<Rightarrow> nat option" where
  "string_body [] = None"
| "string_body (c # cs) =
     (if c = 34 then Some 1
      else if c = 92 then
        (case cs of
           [] \<Rightarrow> None
         | d # ds \<Rightarrow> if is_line_terminator d then None
                     else map_option (\<lambda>n. n + 2) (string_body ds))
      else map_option Suc (string_body cs))"

definition match_string :: "jstring \<Rightarrow> nat option" where
  "match_string s =
     (case s of [] \<Rightarrow> None | c # cs \<Rightarrow> if c = 34 then map_option Suc (string_body cs) else None)"

text \<open>\<open>/^(true|false|null)/\<close>: a prefix test, so \<open>trueish\<close> yields \<open>true\<close>.\<close>

definition match_literal :: "jstring \<Rightarrow> nat option" where
  "match_literal s =
     (if take 4 s = js ''true'' then Some 4
      else if take 5 s = js ''false'' then Some 5
      else if take 4 s = js ''null'' then Some 4
      else None)"

text \<open>
  \<open>/^(-?(?:0|[1-9]\d*)(?:\.\d+)?(?:[eE][+-]?\d+)?)/\<close>, piece by piece. An
  optional group that cannot be completed matches the empty string (the regex
  backtracks out of it): \<open>1.\<close> matches \<open>1\<close>, \<open>1e+\<close> matches \<open>1\<close>.
\<close>

definition int_part_len :: "jstring \<Rightarrow> nat option" where
  "int_part_len s =
     (case s of
        [] \<Rightarrow> None
      | c # cs \<Rightarrow> if c = 48 then Some 1
                  else if 49 \<le> c \<and> c \<le> 57 then Some (1 + digits_len cs)
                  else None)"

definition frac_len :: "jstring \<Rightarrow> nat" where
  "frac_len s =
     (case s of
        [] \<Rightarrow> 0
      | c # cs \<Rightarrow> if c = 46 \<and> 0 < digits_len cs then 1 + digits_len cs else 0)"

definition exp_len :: "jstring \<Rightarrow> nat" where
  "exp_len s =
     (case s of
        [] \<Rightarrow> 0
      | c # cs \<Rightarrow>
          if c = 101 \<or> c = 69 then
            (let sg = (case cs of [] \<Rightarrow> 0 | d # _ \<Rightarrow> if d = 43 \<or> d = 45 then 1 else 0);
                 n = digits_len (drop sg cs)
             in if 0 < n then 1 + sg + n else 0)
          else 0)"

definition match_number :: "jstring \<Rightarrow> nat option" where
  "match_number s =
     (let sg = (if take 1 s = [45] then 1 else 0) in
      case int_part_len (drop sg s) of
        None \<Rightarrow> None
      | Some i \<Rightarrow>
          (let f = frac_len (drop (sg + i) s);
               e = exp_len (drop (sg + i + f) s)
           in Some (sg + i + f + e)))"

text \<open>\<open>/^([{}\[\]:,])/\<close>\<close>

definition match_punctuation :: "jstring \<Rightarrow> nat option" where
  "match_punctuation s =
     (case s of [] \<Rightarrow> None | c # _ \<Rightarrow> if c \<in> {123, 125, 91, 93, 58, 44} then Some 1 else None)"

subsection \<open>JSON.parse on a string token\<close>

definition hex_digit_value :: "nat \<Rightarrow> nat option" where
  "hex_digit_value c =
     (if 48 \<le> c \<and> c \<le> 57 then Some (c - 48)
      else if 65 \<le> c \<and> c \<le> 70 then Some (c - 55)
      else if 97 \<le> c \<and> c \<le> 102 then Some (c - 87)
      else None)"

fun hex_value :: "nat \<Rightarrow> jstring \<Rightarrow> nat option" where
  "hex_value acc [] = Some acc"
| "hex_value acc (d # ds) =
     (case hex_digit_value d of None \<Rightarrow> None | Some v \<Rightarrow> hex_value (16 * acc + v) ds)"

definition escape_char :: "nat \<Rightarrow> nat option" where
  "escape_char e =
     (if e = 34 then Some 34 else if e = 92 then Some 92 else if e = 47 then Some 47
      else if e = 98 then Some 8 else if e = 102 then Some 12 else if e = 110 then Some 10
      else if e = 114 then Some 13 else if e = 116 then Some 9 else None)"

fun json_unescape :: "jstring \<Rightarrow> jstring option" where
  "json_unescape [] = Some []"
| "json_unescape (c # cs) =
     (if c = 92 then
        (case cs of
           [] \<Rightarrow> None
         | e # rest \<Rightarrow>
             if e = 117 then
               (if length rest < 4 then None
                else case hex_value 0 (take 4 rest) of
                       None \<Rightarrow> None
                     | Some u \<Rightarrow> map_option (Cons u) (json_unescape (drop 4 rest)))
             else (case escape_char e of
                     None \<Rightarrow> None
                   | Some d \<Rightarrow> map_option (Cons d) (json_unescape rest)))
      else if c = 34 \<or> c < 32 then None
      else map_option (Cons c) (json_unescape cs))"

definition json_parse_string :: "jstring \<Rightarrow> error + jstring" where
  "json_parse_string v =
     (if 2 \<le> length v \<and> hd v = 34 \<and> last v = 34
      then (case json_unescape (take (length v - 2) (tl v)) of
              None \<Rightarrow> Inl SyntaxError
            | Some s \<Rightarrow> Inr s)
      else Inl SyntaxError)"

subsection \<open>The create callbacks and the rule table\<close>

type_synonym creator = "jstring \<Rightarrow> irange \<Rightarrow> error + token"

definition create_inline_comment :: creator where
  "create_inline_comment v p =
     Inr \<lparr>ttype = TInlineComment, position = p, raw = v, tvalue = JString (drop 2 v)\<rparr>"

definition create_multiline_comment :: creator where
  "create_multiline_comment v p =
     Inr \<lparr>ttype = TMultilineComment, position = p, raw = v,
          tvalue = JString (take (length v - 4) (drop 2 v))\<rparr>"

definition create_whitespace :: creator where
  "create_whitespace v p = Inr \<lparr>ttype = TWhitespace, position = p, raw = v, tvalue = JString v\<rparr>"

definition create_string :: creator where
  "create_string v p =
     (case json_parse_string v of
        Inl e \<Rightarrow> Inl e
      | Inr s \<Rightarrow> Inr \<lparr>ttype = TString, position = p, raw = v, tvalue = JString s\<rparr>)"

definition create_literal :: creator where
  "create_literal v p =
     Inr \<lparr>ttype = TLiteral, position = p, raw = v,
          tvalue = (if v = js ''null'' then JNull else JBool (v = js ''true''))\<rparr>"

definition create_number :: creator where
  "create_number v p = Inr \<lparr>ttype = TNumber, position = p, raw = v, tvalue = JNumber v\<rparr>"

definition create_punctuation :: creator where
  "create_punctuation v p = Inr \<lparr>ttype = TPunctuation, position = p, raw = v, tvalue = JString v\<rparr>"

definition token_types :: "((jstring \<Rightarrow> nat option) \<times> creator) list" where
  "token_types =
     [(match_inline_comment, create_inline_comment),
      (match_multiline_comment, create_multiline_comment),
      (match_whitespace, create_whitespace),
      (match_string, create_string),
      (match_literal, create_literal),
      (match_number, create_number),
      (match_punctuation, create_punctuation)]"

text \<open>The inner \<open>for\<close> loop of \<open>tokenize\<close>: the first rule whose regex matches.\<close>

fun first_match :: "((jstring \<Rightarrow> nat option) \<times> creator) list \<Rightarrow> jstring \<Rightarrow> (creator \<times> nat) option" where
  "first_match [] s = None"
| "first_match ((m, c) # rs) s = (case m s of Some n \<Rightarrow> Some (c, n) | None \<Rightarrow> first_match rs s)"

definition match_token :: "jstring \<Rightarrow> (creator \<times> nat) option" where
  "match_token s = first_match token_types s"

text \<open>
  The shape of a token a rule creates: its raw text is non-empty, and its value is
  the one the rule's \<open>create\<close> callback derives from it (for a string, the value
  \<open>JSON.parse\<close> returns; for punctuation, one of the six characters).
\<close>

definition token_wf :: "token \<Rightarrow> bool" where
  "token_wf t \<longleftrightarrow> raw t \<noteq> [] \<and>
     (case ttype t of
        TInlineComment \<Rightarrow> take 2 (raw t) = js ''//'' \<and> tvalue t = JString (drop 2 (raw t))
      | TMultilineComment \<Rightarrow> take 2 (raw t) = js ''/*'' \<and> 4 \<le> length (raw t) \<and>
          tvalue t = JString (take (length (raw t) - 4) (drop 2 (raw t)))
      | TWhitespace \<Rightarrow> list_all is_js_space (raw t) \<and> tvalue t = JString (raw t)
      | TString \<Rightarrow> (case tvalue t of JString v \<Rightarrow> json_parse_string (raw t) = Inr v | _ \<Rightarrow> False)
      | TLiteral \<Rightarrow> (raw t = js ''true'' \<and> tvalue t = JBool True) \<or>
          (raw t = js ''false'' \<and> tvalue t = JBool False) \<or> (raw t = js ''null'' \<and> tvalue t = JNull)
      | TNumber \<Rightarrow> tvalue t = JNumber (raw t)
      | TPunctuation \<Rightarrow> length (raw t) = 1 \<and> hd (raw t) \<in> {123, 125, 91, 93, 58, 44} \<and>
          tvalue t = JString (raw t)
      | TOther _ \<Rightarrow> False)"

subsection \<open>Every rule consumes a non-empty prefix\<close>

lemma match_inline_comment_bound:
  "match_inline_comment s = Some n \<Longrightarrow> 0 < n \<and> n \<le> length s"
proof -
  assume m: "match_inline_comment s = Some n"
  then have "take 2 s = js ''//''" by (simp add: match_inline_comment_def split: if_splits)
  then have "2 \<le> length s" by (rule take_eq_length) (simp add: js_def)
  moreover have "length (takeWhile (\<lambda>c. \<not> is_line_terminator c) (drop 2 s)) \<le> length s - 2"
    using length_takeWhile_le [of _ "drop 2 s"] by simp
  ultimately show ?thesis using m by (auto simp: match_inline_comment_def split: if_splits)
qed

lemma last_close_bound: "last_close line = Some k \<Longrightarrow> 2 \<le> k \<and> k \<le> length line"
  by (auto simp: last_close_def dest!: find_Some_mem)

text \<open>The greedy \<open>.*\<close>: a line that ends in \<open>*/\<close> is matched to its end.\<close>

lemma last_close_close: "last_close (y @ js ''*/'') = Some (length y + 2)"
  by (simp add: last_close_def js_def)

lemma match_multiline_comment_bound:
  "match_multiline_comment s = Some n \<Longrightarrow> 0 < n \<and> n \<le> length s"
proof -
  assume m: "match_multiline_comment s = Some n"
  then obtain k where k: "last_close (takeWhile (\<lambda>c. \<not> is_line_terminator c) (drop 2 s)) = Some k"
    and n: "n = 2 + k" and pre: "take 2 s = js ''/*''"
    by (auto simp: match_multiline_comment_def split: if_splits)
  have "length (take 2 s) = 2" using pre by (simp add: js_def)
  then have "2 \<le> length s" by simp
  moreover have "k \<le> length (drop 2 s)"
    using last_close_bound [OF k] length_takeWhile_le order_trans by blast
  ultimately show ?thesis using n by simp
qed

lemma match_whitespace_bound: "match_whitespace s = Some n \<Longrightarrow> 0 < n \<and> n \<le> length s"
  using length_takeWhile_le [of is_js_space s]
  by (auto simp: match_whitespace_def Let_def split: if_splits)

lemma string_body_bound: "string_body s = Some n \<Longrightarrow> 0 < n \<and> n \<le> length s"
  by (induction s arbitrary: n rule: string_body.induct) (auto split: if_splits list.splits)

lemma match_string_bound: "match_string s = Some n \<Longrightarrow> 0 < n \<and> n \<le> length s"
  by (auto simp: match_string_def split: list.splits if_splits dest!: string_body_bound)

lemma match_literal_bound: "match_literal s = Some n \<Longrightarrow> 0 < n \<and> n \<le> length s"
  by (auto simp: match_literal_def split: if_splits elim!: take_eq_length) (simp_all add: js_def)

lemma int_part_len_bound: "int_part_len s = Some i \<Longrightarrow> 0 < i \<and> i \<le> length s"
  using length_takeWhile_le [of is_digit]
  by (auto simp: int_part_len_def digits_len_def split: list.splits if_splits)

lemma frac_len_bound: "frac_len s \<le> length s"
  using length_takeWhile_le [of is_digit]
  by (auto simp: frac_len_def digits_len_def split: list.splits)

lemma exp_len_bound: "exp_len s \<le> length s"
proof (cases s)
  case Nil
  then show ?thesis by (simp add: exp_len_def)
next
  case (Cons c cs)
  let ?sg = "case cs of [] \<Rightarrow> 0 | d # _ \<Rightarrow> if d = 43 \<or> d = 45 then 1 else (0::nat)"
  have sg: "?sg \<le> length cs" by (auto split: list.splits)
  have "digits_len (drop ?sg cs) \<le> length cs - ?sg"
    using length_takeWhile_le [of is_digit "drop ?sg cs"] by (simp add: digits_len_def)
  with sg Cons show ?thesis by (auto simp: exp_len_def Let_def)
qed

lemma match_number_bound: "match_number s = Some n \<Longrightarrow> 0 < n \<and> n \<le> length s"
proof -
  assume m: "match_number s = Some n"
  define sg where "sg = (if take 1 s = [45] then 1 else (0::nat))"
  have sg_le: "sg \<le> length s" by (cases s) (auto simp: sg_def)
  from m obtain i where i: "int_part_len (drop sg s) = Some i"
    and n: "n = sg + i + frac_len (drop (sg + i) s) + exp_len (drop (sg + i + frac_len (drop (sg + i) s)) s)"
    by (auto simp: match_number_def sg_def Let_def split: option.splits)
  from int_part_len_bound [OF i] sg_le have "0 < i" and "sg + i \<le> length s" by auto
  moreover have "frac_len (drop (sg + i) s) \<le> length s - (sg + i)"
    using frac_len_bound [of "drop (sg + i) s"] by simp
  moreover have "exp_len (drop (sg + i + frac_len (drop (sg + i) s)) s)
      \<le> length s - (sg + i + frac_len (drop (sg + i) s))"
    using exp_len_bound by (metis length_drop)
  ultimately show ?thesis using n by linarith
qed

lemma match_punctuation_bound: "match_punctuation s = Some n \<Longrightarrow> 0 < n \<and> n \<le> length s"
  by (auto simp: match_punctuation_def split: list.splits if_splits)

lemma first_match_mem:
  "first_match rs s = Some (c, n) \<Longrightarrow> \<exists>m. (m, c) \<in> set rs \<and> m s = Some n"
  by (induction rs s rule: first_match.induct) (auto split: option.splits)

lemma match_token_bound [intro]:
  assumes "match_token s = Some (c, n)"
  shows "0 < n \<and> n \<le> length s"
proof -
  from assms obtain m where "(m, c) \<in> set token_types" and m: "m s = Some n"
    unfolding match_token_def by (blast dest: first_match_mem)
  then have "m \<in> {match_inline_comment, match_multiline_comment, match_whitespace,
      match_string, match_literal, match_number, match_punctuation}"
    by (auto simp: token_types_def)
  with m show ?thesis
    using match_inline_comment_bound match_multiline_comment_bound match_whitespace_bound
      match_string_bound match_literal_bound match_number_bound match_punctuation_bound
    by blast
qed

lemma match_token_creator:
  "match_token s = Some (c, n) \<Longrightarrow> c \<in> snd ` set token_types"
  by (force simp: match_token_def dest!: first_match_mem)

lemma creator_raw [simp]:
  "c \<in> snd ` set token_types \<Longrightarrow> c v p = Inr t \<Longrightarrow> raw t = v \<and> position t = p"
  by (auto simp: token_types_def create_inline_comment_def create_multiline_comment_def
      create_whitespace_def create_string_def create_literal_def create_number_def
      create_punctuation_def split: sum.splits)

lemma creator_type:
  "c \<in> snd ` set token_types \<Longrightarrow> c v p = Inr t \<Longrightarrow> ttype t \<noteq> TOther x"
  by (auto simp: token_types_def create_inline_comment_def create_multiline_comment_def
      create_whitespace_def create_string_def create_literal_def create_number_def
      create_punctuation_def split: sum.splits)

lemma creator_error:
  "c \<in> snd ` set token_types \<Longrightarrow> c v p = Inl e \<Longrightarrow> e = SyntaxError"
  by (auto simp: token_types_def create_inline_comment_def create_multiline_comment_def
      create_whitespace_def create_string_def create_literal_def create_number_def
      create_punctuation_def json_parse_string_def split: sum.splits if_splits option.splits)

lemma string_body_plain:
  "\<forall>c\<in>set b. c \<noteq> 34 \<and> c \<noteq> 92 \<Longrightarrow> string_body (b @ [34]) = Some (Suc (length b))"
  by (induction b) auto

lemma json_unescape_plain:
  "\<forall>c\<in>set b. c \<noteq> 34 \<and> c \<noteq> 92 \<Longrightarrow>
   json_unescape b = (if \<forall>c\<in>set b. 32 \<le> c then Some b else None)"
  by (induction b) (auto simp: not_less)

subsection \<open>The tokens the rules create are well formed\<close>

lemma inline_comment_wf:
  assumes "match_inline_comment s = Some n" "create_inline_comment (take n s) p = Inr t"
  shows "token_wf t"
proof -
  from assms(1) have pre: "take 2 s = js ''//''" and n: "2 \<le> n"
    by (auto simp: match_inline_comment_def split: if_splits)
  then have "take 2 (take n s) = js ''//''" by (simp add: min_def)
  moreover from match_inline_comment_bound [OF assms(1)] have "take n s \<noteq> []" by auto
  ultimately show ?thesis using assms(2) by (auto simp: create_inline_comment_def token_wf_def)
qed

lemma multiline_comment_wf:
  assumes "match_multiline_comment s = Some n" "create_multiline_comment (take n s) p = Inr t"
  shows "token_wf t"
proof -
  from assms(1) obtain k where k: "last_close (takeWhile (\<lambda>c. \<not> is_line_terminator c) (drop 2 s)) = Some k"
    and n: "n = 2 + k" and pre: "take 2 s = js ''/*''"
    by (auto simp: match_multiline_comment_def split: if_splits)
  from match_multiline_comment_bound [OF assms(1)] have "n \<le> length s" by simp
  moreover from last_close_bound [OF k] n have "4 \<le> n" by simp
  moreover have "take 2 (take n s) = js ''/*''" using pre n by (simp add: min_def)
  ultimately show ?thesis using assms(2) by (auto simp: create_multiline_comment_def token_wf_def)
qed

lemma whitespace_wf:
  "match_whitespace s = Some n \<Longrightarrow> create_whitespace (take n s) p = Inr t \<Longrightarrow> token_wf t"
proof -
  assume m: "match_whitespace s = Some n" and c: "create_whitespace (take n s) p = Inr t"
  from m have n: "n = length (takeWhile is_js_space s)" "0 < n" by (auto simp: match_whitespace_def Let_def split: if_splits)
  then have "take n s = takeWhile is_js_space s" by (metis takeWhile_eq_take)
  moreover have "list_all is_js_space (takeWhile is_js_space s)" by (auto simp: list_all_iff dest: set_takeWhileD)
  moreover have "takeWhile is_js_space s \<noteq> []" using n by auto
  ultimately show ?thesis using c by (auto simp: create_whitespace_def token_wf_def)
qed

lemma string_wf: "create_string v p = Inr t \<Longrightarrow> v \<noteq> [] \<Longrightarrow> token_wf t"
  by (auto simp: create_string_def token_wf_def split: sum.splits)

lemma literal_wf:
  assumes "match_literal s = Some n" "create_literal (take n s) p = Inr t"
  shows "token_wf t"
proof -
  from assms(1) have "take n s = js ''true'' \<or> take n s = js ''false'' \<or> take n s = js ''null''"
    by (auto simp: match_literal_def split: if_splits)
  then show ?thesis using assms(2)
    by (elim disjE) (auto simp: create_literal_def token_wf_def js_def)
qed

lemma number_wf: "create_number v p = Inr t \<Longrightarrow> v \<noteq> [] \<Longrightarrow> token_wf t"
  by (auto simp: create_number_def token_wf_def)

lemma punctuation_wf:
  "match_punctuation s = Some n \<Longrightarrow> create_punctuation (take n s) p = Inr t \<Longrightarrow> token_wf t"
  by (auto simp: match_punctuation_def create_punctuation_def token_wf_def split: list.splits if_splits)

lemma match_token_wf:
  assumes "match_token s = Some (c, n)" "c (take n s) p = Inr t"
  shows "token_wf t"
proof -
  from assms(1) obtain m where r: "(m, c) \<in> set token_types" and m: "m s = Some n"
    unfolding match_token_def by (blast dest: first_match_mem)
  from match_token_bound [OF assms(1)] have ne: "take n s \<noteq> []" by auto
  from r have "(m, c) \<in> {(match_inline_comment, create_inline_comment),
      (match_multiline_comment, create_multiline_comment), (match_whitespace, create_whitespace),
      (match_string, create_string), (match_literal, create_literal), (match_number, create_number),
      (match_punctuation, create_punctuation)}"
    by (simp add: token_types_def)
  then show ?thesis using m assms(2) ne
    by (elim insertE emptyE)
       (simp_all add: inline_comment_wf multiline_comment_wf whitespace_wf string_wf literal_wf
        number_wf punctuation_wf)
qed

end
