(* ===== verification/Tokenizer.thy ===== *)
theory Tokenizer
  imports Lexer_Rules
begin

text \<open>
  The scanning loop of \<open>tokenize\<close> in \<open>src/src/json-tokenize.js\<close> (a verbatim copy
  is in \<open>src/src/json-parse-ast.js\<close>): at each index the first matching rule is
  committed to, the running \<open>position\<close> is advanced over the matched text, and the
  token is created with the range from the old to the new position. When no rule
  matches, the loop stops and returns the tokens so far; an exception of a
  \<open>create\<close> callback (only \<open>JSON.parse\<close> throws) escapes \<open>tokenize\<close>.
  The lemmas: the loop terminates (a measure on the unread input); the raw texts of
  the tokens concatenate to a prefix of the input, and the unread rest is empty or
  starts with a character no rule accepts; each token's range runs from the
  position before it to the position after it; the position update is an action
  of string concatenation, and compared with the true line and column of a text it
  is exact on lines and one column too far right once a line break was crossed;
  every token is well formed (\<open>token_wf\<close>), there are at most as many tokens
  as code units, and every range obeys \<open>range_ok\<close>.
\<close>

definition advance :: "ipos \<Rightarrow> jstring \<Rightarrow> ipos" where
  "advance p r =
     (let n = count_list r 10 in
      if 1 \<le> n then
        \<lparr>lineNumber = lineNumber p + n,
         column = nat (int (length r) - last_index_of r 10 + 1)\<rparr>
      else p\<lparr>column := column p + length r\<rparr>)"

definition token_range :: "ipos \<Rightarrow> ipos \<Rightarrow> irange" where
  "token_range a b =
     \<lparr>startLineNumber = lineNumber a, startColumn = column a,
      endLineNumber = lineNumber b, endColumn = column b\<rparr>"

function tokenize_loop :: "jstring \<Rightarrow> nat \<Rightarrow> ipos \<Rightarrow> token list \<Rightarrow> error + token list" where
  "tokenize_loop json index pos tokens =
     (if index < length json then
        (case match_token (drop index json) of
           None \<Rightarrow> Inr tokens
         | Some (create, n) \<Rightarrow>
             (let rawToken = take n (drop index json);
                  pos' = advance pos rawToken
              in case create rawToken (token_range pos pos') of
                   Inl e \<Rightarrow> Inl e
                 | Inr t \<Rightarrow> tokenize_loop json (index + n) pos' (tokens @ [t])))
      else Inr tokens)"
  by pat_completeness auto
termination
  by (relation "measure (\<lambda>(json, index, pos, tokens). length json - index)")
    (auto dest: match_token_bound)

definition start_pos :: ipos where
  "start_pos = \<lparr>lineNumber = 1, column = 1\<rparr>"

definition tokenize :: "jstring \<Rightarrow> error + token list" where
  "tokenize json = tokenize_loop json 0 start_pos []"

text \<open>Each token's range spans from the position before it to the position after it.\<close>

fun positioned :: "ipos \<Rightarrow> token list \<Rightarrow> bool" where
  "positioned p [] = True"
| "positioned p (t # ts) =
     (position t = token_range p (advance p (raw t)) \<and> positioned (advance p (raw t)) ts)"

text \<open>
  The true position (1-based line and column, as Monaco counts them) of the point
  after a text: the specification the position update is compared with.
\<close>

definition true_pos :: "jstring \<Rightarrow> ipos" where
  "true_pos s =
     \<lparr>lineNumber = 1 + count_list s 10,
      column = 1 + length (takeWhile (\<lambda>c. c \<noteq> 10) (rev s))\<rparr>"

text \<open>
  The bounds a token's range obeys: it starts at line and column 1 or later, ends
  as many lines further down as its text has line breaks, and on a single line
  it is exactly as wide as its text.
\<close>

definition range_ok :: "token \<Rightarrow> bool" where
  "range_ok t \<longleftrightarrow>
     1 \<le> startLineNumber (position t) \<and> 1 \<le> startColumn (position t) \<and>
     endLineNumber (position t) = startLineNumber (position t) + count_list (raw t) 10 \<and>
     1 \<le> endColumn (position t) \<and>
     ((count_list (raw t) 10 = 0 \<and> endColumn (position t) = startColumn (position t) + length (raw t))
      \<or> 0 < count_list (raw t) 10)"

lemmas lexer_eval = match_token_def token_types_def match_inline_comment_def
  match_multiline_comment_def match_whitespace_def match_string_def match_literal_def
  match_number_def match_punctuation_def is_js_space_def is_line_terminator_def
  last_close_def int_part_len_def frac_len_def exp_len_def digits_len_def is_digit_def
  create_inline_comment_def create_multiline_comment_def create_whitespace_def
  create_string_def create_literal_def create_number_def create_punctuation_def
  json_parse_string_def escape_char_def hex_digit_value_def

lemmas tokenize_eval = tokenize_def start_pos_def advance_def token_range_def Let_def js_def
  lexer_eval

subsection \<open>The position update\<close>

lemma advance_append: "advance (advance p a) b = advance p (a @ b)"
proof (cases "10 \<in> set b")
  case True
  then have "1 \<le> count_list b 10" by (metis count_list_0_iff less_one not_le)
  with True show ?thesis
    by (auto simp: advance_def Let_def last_index_of_append)
next
  case False
  show ?thesis
  proof (cases "10 \<in> set a")
    case True
    then have "1 \<le> count_list a 10" by (metis count_list_0_iff less_one not_le)
    moreover have "last_index_of a 10 < int (length a)" using last_index_of_bounds [OF True] by simp
    ultimately show ?thesis using False
      by (simp add: advance_def Let_def last_index_of_append count_list_0_iff)
  next
    case a: False
    with False show ?thesis by (simp add: advance_def Let_def count_list_0_iff)
  qed
qed

lemma advance_Nil [simp]: "advance p [] = p"
  by (simp add: advance_def)

lemma advance_no_newline: "10 \<notin> set r \<Longrightarrow> advance p r = p\<lparr>column := column p + length r\<rparr>"
  by (simp add: advance_def)

lemma advance_start_pos:
  "advance start_pos s =
     (if 10 \<in> set s then (true_pos s)\<lparr>column := column (true_pos s) + 1\<rparr> else true_pos s)"
proof (cases "10 \<in> set s")
  case True
  then have "1 \<le> count_list s 10" by (metis count_list_0_iff less_one not_le)
  moreover have "0 \<le> last_index_of s 10" and "last_index_of s 10 < int (length s)"
    using last_index_of_bounds [OF True] by auto
  ultimately show ?thesis using True
    by (simp add: advance_def start_pos_def true_pos_def takeWhile_rev_last_index_of)
next
  case False
  then have tw: "takeWhile (\<lambda>c. c \<noteq> 10) (rev s) = rev s"
    by (auto simp: takeWhile_eq_all_conv)
  show ?thesis using False by (simp add: advance_no_newline start_pos_def true_pos_def tw)
qed

lemma advance_line: "lineNumber (advance p r) = lineNumber p + count_list r 10"
  by (simp add: advance_def Let_def)

lemma advance_same_line:
  "count_list r 10 = 0 \<Longrightarrow> column (advance p r) = column p + length r"
  by (simp add: advance_def)

lemma advance_column_ge1: "1 \<le> column p \<Longrightarrow> 1 \<le> column (advance p r)"
proof (cases "count_list r 10 = 0")
  case False
  then have "10 \<in> set r" by (simp add: count_list_0_iff)
  from last_index_of_bounds [OF this] have "1 \<le> int (length r) - last_index_of r 10 + 1" by linarith
  then show ?thesis using False by (simp add: advance_def Let_def le_nat_iff)
qed (simp add: advance_same_line)

lemma positioned_nth:
  "positioned p ts \<Longrightarrow> i < length ts \<Longrightarrow>
   position (ts ! i) = token_range (advance p (concat (map raw (take i ts))))
                                   (advance p (concat (map raw (take (Suc i) ts))))"
proof (induction ts arbitrary: p i)
  case Nil
  then show ?case by simp
next
  case (Cons t ts)
  then show ?case
    by (cases i) (auto simp: advance_append)
qed

subsection \<open>The scanning loop\<close>

lemma tokenize_loop_inv:
  "tokenize_loop json index pos acc = Inr ts \<Longrightarrow> index \<le> length json \<Longrightarrow>
   \<exists>ts' k. ts = acc @ ts' \<and> index \<le> k \<and> k \<le> length json \<and>
     concat (map raw ts') = take (k - index) (drop index json) \<and>
     positioned pos ts' \<and> (k = length json \<or> match_token (drop k json) = None)"
proof (induction json index pos acc arbitrary: ts rule: tokenize_loop.induct)
  case (1 json index pos tokens)
  show ?case
  proof (cases "index < length json")
    case False
    with "1.prems" show ?thesis by auto
  next
    case True
    show ?thesis
    proof (cases "match_token (drop index json)")
      case None
      with True "1.prems" show ?thesis by (auto intro!: exI [of _ index])
    next
      case (Some cn)
      then obtain create n where m: "match_token (drop index json) = Some (create, n)"
        by (cases cn) auto
      define r where "r = take n (drop index json)"
      define pos' where "pos' = advance pos r"
      from match_token_bound [OF m] True have n: "0 < n" "index + n \<le> length json" by auto
      from "1.prems"(1) True m obtain t where
        c: "create r (token_range pos pos') = Inr t" and
        rec: "tokenize_loop json (index + n) pos' (tokens @ [t]) = Inr ts"
        by (auto simp: r_def pos'_def Let_def split: sum.splits)
      from creator_raw [OF match_token_creator [OF m] c] have t: "raw t = r" "position t = token_range pos pos'"
        by auto
      from "1.IH" [OF True m refl, of r pos' t, OF r_def pos'_def c rec n(2)]
      obtain ts' k where ih: "ts = (tokens @ [t]) @ ts'" "index + n \<le> k" "k \<le> length json"
        "concat (map raw ts') = take (k - (index + n)) (drop (index + n) json)"
        "positioned pos' ts'" "k = length json \<or> match_token (drop k json) = None"
        by blast
      have "take (k - index) (drop index json) = r @ take (k - (index + n)) (drop (index + n) json)"
        using take_drop_split [of index "index + n" k json] ih(2) by (simp add: r_def)
      with ih t show ?thesis
        by (intro exI [of _ "t # ts'"] exI [of _ k]) (auto simp: pos'_def)
    qed
  qed
qed

lemma tokenize_loop_error:
  "tokenize_loop json index pos acc = Inl e \<Longrightarrow> e = SyntaxError"
proof (induction json index pos acc rule: tokenize_loop.induct)
  case (1 json index pos tokens)
  show ?case
  proof (cases "index < length json")
    case False
    with "1.prems" show ?thesis by simp
  next
    case True
    with "1.prems" obtain create n where m: "match_token (drop index json) = Some (create, n)"
      by (auto split: option.splits)
    define r where "r = take n (drop index json)"
    define pos' where "pos' = advance pos r"
    show ?thesis
    proof (cases "create r (token_range pos pos')")
      case (Inl e')
      with "1.prems" True m have "e' = e" by (simp add: r_def pos'_def Let_def)
      with creator_error [OF match_token_creator [OF m] Inl] show ?thesis by simp
    next
      case (Inr t)
      with "1.prems" True m have "tokenize_loop json (index + n) pos' (tokens @ [t]) = Inl e"
        by (simp add: r_def pos'_def Let_def)
      then show ?thesis by (rule "1.IH" [OF True m refl r_def pos'_def Inr])
    qed
  qed
qed

lemma tokenize_loop_wf:
  "tokenize_loop json index pos acc = Inr ts \<Longrightarrow> list_all token_wf acc \<Longrightarrow> list_all token_wf ts"
proof (induction json index pos acc rule: tokenize_loop.induct)
  case (1 json index pos tokens)
  show ?case
  proof (cases "index < length json \<and> match_token (drop index json) \<noteq> None")
    case False
    with "1.prems" show ?thesis by (auto split: if_splits option.splits)
  next
    case True
    then obtain create n where m: "match_token (drop index json) = Some (create, n)" by auto
    define r where "r = take n (drop index json)"
    define pos' where "pos' = advance pos r"
    from "1.prems"(1) True m obtain t where
      c: "create r (token_range pos pos') = Inr t" and
      rec: "tokenize_loop json (index + n) pos' (tokens @ [t]) = Inr ts"
      by (auto simp: r_def pos'_def Let_def split: sum.splits)
    have "token_wf t" using match_token_wf [OF m] c by (simp add: r_def)
    with "1.prems"(2) have wf: "list_all token_wf (tokens @ [t])" by simp
    have lt: "index < length json" using True by simp
    show ?thesis using "1.IH" [OF lt m refl r_def pos'_def c rec] wf by blast
  qed
qed

lemma positioned_range_ok:
  "positioned p ts \<Longrightarrow> 1 \<le> lineNumber p \<Longrightarrow> 1 \<le> column p \<Longrightarrow> list_all range_ok ts"
proof (induction ts arbitrary: p)
  case Nil
  then show ?case by simp
next
  case (Cons t ts)
  from Cons.prems have pt: "position t = token_range p (advance p (raw t))"
    and ps: "positioned (advance p (raw t)) ts" by simp_all
  have c: "1 \<le> column (advance p (raw t))" by (rule advance_column_ge1) (use Cons.prems in simp)
  moreover have "1 \<le> lineNumber (advance p (raw t))" using Cons.prems by (simp add: advance_line)
  ultimately have "list_all range_ok ts" using Cons.IH ps by blast
  moreover have "range_ok t" using pt Cons.prems c advance_same_line [of "raw t" p]
    by (cases "count_list (raw t) 10 = 0") (simp_all add: range_ok_def token_range_def advance_line)
  ultimately show ?case by simp
qed

lemma length_le_concat_raw: "list_all token_wf ts \<Longrightarrow> length ts \<le> length (concat (map raw ts))"
proof (induction ts)
  case (Cons t ts)
  then have "raw t \<noteq> []" "length ts \<le> length (concat (map raw ts))" by (simp_all add: token_wf_def)
  then show ?case by (cases "raw t") simp_all
qed simp

subsection \<open>Properties of tokenize\<close>

text \<open>
  C7: the raw texts of the tokens concatenate to a prefix of the input, and the
  unread rest is empty or starts where no lexical rule matches: tokenize is
  lossless on what it reads and stops only where it cannot go on.
\<close>

theorem tokenize_raw_prefix:
  assumes "tokenize json = Inr ts"
  shows "\<exists>rest. json = concat (map raw ts) @ rest \<and> (rest = [] \<or> match_token rest = None)"
proof -
  from tokenize_loop_inv [of json 0 start_pos "[]" ts] assms
  obtain ts' k where "ts = ts'" "k \<le> length json" "concat (map raw ts') = take k json"
    "k = length json \<or> match_token (drop k json) = None"
    by (auto simp: tokenize_def)
  then show ?thesis by (intro exI [of _ "drop k json"]) auto
qed

theorem tokenize_raw_prefix_witness:
  "tokenize (js ''[1, tru'') = Inr (projr (tokenize (js ''[1, tru''))) \<and>
   (\<exists>rest. js ''[1, tru'' = concat (map raw (projr (tokenize (js ''[1, tru'')))) @ rest \<and>
           (rest = [] \<or> match_token rest = None))"
proof -
  have t: "tokenize (js ''[1, tru'') = Inr (projr (tokenize (js ''[1, tru'')))"
    by (simp add: tokenize_eval)
  show ?thesis using t tokenize_raw_prefix [OF t] by blast
qed

text \<open>
  C24: the range of the i-th token starts at the line the text before it ends on,
  and at the column after it, except that once the text before it contains a line
  break the column is one more than the true (1-based) column: the position
  update adds one after every token that contains a line break.
\<close>

theorem tokenize_start_position:
  assumes "tokenize json = Inr ts" and "i < length ts"
  shows "startLineNumber (position (ts ! i)) = lineNumber (true_pos (concat (map raw (take i ts)))) \<and>
         startColumn (position (ts ! i)) =
           column (true_pos (concat (map raw (take i ts))))
           + (if 10 \<in> set (concat (map raw (take i ts))) then 1 else 0)"
proof -
  from tokenize_loop_inv [of json 0 start_pos "[]" ts] assms(1)
  have "positioned start_pos ts" by (auto simp: tokenize_def)
  from positioned_nth [OF this assms(2)] show ?thesis
    by (simp add: token_range_def advance_start_pos)
qed

theorem tokenize_start_position_witness:
  "tokenize (js ''{'' @ [10] @ js ''}'') = Inr (projr (tokenize (js ''{'' @ [10] @ js ''}''))) \<and>
   2 < length (projr (tokenize (js ''{'' @ [10] @ js ''}''))) \<and>
   startLineNumber (position (projr (tokenize (js ''{'' @ [10] @ js ''}'')) ! 2))
     = lineNumber (true_pos (concat (map raw (take 2 (projr (tokenize (js ''{'' @ [10] @ js ''}''))))))) \<and>
   startColumn (position (projr (tokenize (js ''{'' @ [10] @ js ''}'')) ! 2))
     = column (true_pos (concat (map raw (take 2 (projr (tokenize (js ''{'' @ [10] @ js ''}'')))))))
       + (if 10 \<in> set (concat (map raw (take 2 (projr (tokenize (js ''{'' @ [10] @ js ''}''))))))
          then 1 else 0)"
proof -
  have t: "tokenize (js ''{'' @ [10] @ js ''}'') = Inr (projr (tokenize (js ''{'' @ [10] @ js ''}'')))"
    by (simp add: tokenize_eval)
  have l: "2 < length (projr (tokenize (js ''{'' @ [10] @ js ''}'')))"
    by (simp add: tokenize_eval)
  show ?thesis using t l tokenize_start_position [OF t l] by blast
qed

text \<open>
  C28: the only exception tokenize lets escape is the \<open>SyntaxError\<close> of
  \<open>JSON.parse\<close> on a string token; malformed input otherwise ends the token list.
\<close>

theorem tokenize_error_syntax: "tokenize json = Inl e \<Longrightarrow> e = SyntaxError"
  unfolding tokenize_def by (rule tokenize_loop_error)

theorem tokenize_error_syntax_witness:
  "tokenize (js ''[\"a'' @ [92] @ js ''q\"]'') = Inl SyntaxError \<and> SyntaxError = SyntaxError"
proof -
  have t: "tokenize (js ''[\"a'' @ [92] @ js ''q\"]'') = Inl SyntaxError"
    by (simp add: tokenize_eval)
  show ?thesis using t tokenize_error_syntax [OF t] by blast
qed

text \<open>
  C29: a quoted string without quotes or backslashes inside, but with a control
  character (a tab, a raw line break), is accepted by the string regex and then
  rejected by \<open>JSON.parse\<close>: tokenize throws instead of stopping.
\<close>

theorem tokenize_string_control_char:
  assumes "\<forall>c\<in>set b. c \<noteq> 34 \<and> c \<noteq> 92" and "\<exists>c\<in>set b. c < 32"
  shows "tokenize (34 # b @ [34]) = Inl SyntaxError"
proof -
  have "match_token (34 # b @ [34]) = Some (create_string, Suc (Suc (length b)))"
    using string_body_plain [OF assms(1)]
    by (simp add: match_token_def token_types_def match_inline_comment_def
        match_multiline_comment_def match_whitespace_def match_string_def js_def is_js_space_def)
  moreover have "json_unescape b = None"
    using json_unescape_plain [OF assms(1)] assms(2) by (auto simp: not_le)
  ultimately show ?thesis
    by (simp add: tokenize_def create_string_def json_parse_string_def Let_def)
qed

theorem tokenize_string_control_char_witness:
  "tokenize (34 # (js ''a'' @ [9] @ js ''b'') @ [34]) = Inl SyntaxError"
proof -
  have a: "\<forall>c\<in>set (js ''a'' @ [9] @ js ''b''). c \<noteq> 34 \<and> c \<noteq> 92" by (simp add: js_def)
  have b: "\<exists>c\<in>set (js ''a'' @ [9] @ js ''b''). c < 32" by (simp add: js_def)
  show ?thesis by (rule tokenize_string_control_char [OF a b])
qed

text \<open>
  C22: the specification's block comment is non-greedy, up to the first \<open>*/\<close>;
  the regular expression \<open>/^\/\*.*\*\//\<close> is greedy, so a line that starts with
  \<open>/*\<close> and ends with \<open>*/\<close> is one comment token, whatever \<open>*/\<close>, \<open>/*\<close> or
  values it holds in between.
\<close>

theorem tokenize_block_comment_greedy:
  assumes "list_all (\<lambda>c. \<not> is_line_terminator c) x"
  shows "tokenize (js ''/*'' @ x @ js ''*/'') =
           Inr [\<lparr>ttype = TMultilineComment,
                 position = \<lparr>startLineNumber = 1, startColumn = 1,
                             endLineNumber = 1, endColumn = length x + 5\<rparr>,
                 raw = js ''/*'' @ x @ js ''*/'', tvalue = JString x\<rparr>]"
proof -
  have tw: "takeWhile (\<lambda>c. \<not> is_line_terminator c) (x @ js ''*/'') = x @ js ''*/''"
    using assms by (simp add: list_all_iff js_def is_line_terminator_def)
  have m: "match_token (js ''/*'' @ x @ js ''*/'') = Some (create_multiline_comment, length x + 4)"
    using tw last_close_close [of x]
    by (simp add: match_token_def token_types_def match_inline_comment_def
        match_multiline_comment_def js_def)
  have nl: "10 \<notin> set (js ''/*'' @ x @ js ''*/'')"
    using assms by (auto simp: list_all_iff js_def is_line_terminator_def)
  show ?thesis
    using m advance_no_newline [OF nl, of start_pos]
    by (simp add: tokenize_def start_pos_def token_range_def create_multiline_comment_def
        Let_def js_def)
qed

theorem tokenize_block_comment_greedy_witness:
  "tokenize (js ''/*'' @ js '' a */ 1 /* b '' @ js ''*/'') =
     Inr [\<lparr>ttype = TMultilineComment,
           position = \<lparr>startLineNumber = 1, startColumn = 1,
                       endLineNumber = 1, endColumn = length (js '' a */ 1 /* b '') + 5\<rparr>,
           raw = js ''/*'' @ js '' a */ 1 /* b '' @ js ''*/'', tvalue = JString (js '' a */ 1 /* b '')\<rparr>]"
proof -
  have "list_all (\<lambda>c. \<not> is_line_terminator c) (js '' a */ 1 /* b '')"
    by (simp add: js_def is_line_terminator_def)
  then show ?thesis by (rule tokenize_block_comment_greedy)
qed

text \<open>
  C16 (type): every token tokenize returns is well formed: non-empty raw text, and
  the value its type's \<open>create\<close> callback derives from that text.
\<close>

theorem tokenize_tokens_wf: "tokenize json = Inr ts \<Longrightarrow> list_all token_wf ts"
  unfolding tokenize_def by (erule tokenize_loop_wf) simp

text \<open>
  C17 (bounds): tokenize returns at most one token per code unit of its input, and
  every token's range starts at line and column 1 or later, spans as many lines as
  its text has line breaks, and on one line is exactly as wide as its text.
\<close>

theorem tokenize_bounds:
  assumes "tokenize json = Inr ts"
  shows "length ts \<le> length json \<and> list_all range_ok ts"
proof -
  from tokenize_loop_inv [of json 0 start_pos "[]" ts] assms
  obtain k where c: "concat (map raw ts) = take k json" and p: "positioned start_pos ts"
    by (auto simp: tokenize_def)
  have "list_all token_wf ts"
    using tokenize_loop_wf [of json 0 start_pos "[]" ts] assms by (simp add: tokenize_def)
  from length_le_concat_raw [OF this] c have "length ts \<le> length json"
    by (metis length_take min.bounded_iff)
  moreover have "list_all range_ok ts" by (rule positioned_range_ok [OF p]) (simp_all add: start_pos_def)
  ultimately show ?thesis ..
qed

theorem tokenize_tokens_wf_witness:
  "list_all token_wf (projr (tokenize (js ''{\"a\": [1.5, true, null]} // c'')))"
proof -
  have t: "tokenize (js ''{\"a\": [1.5, true, null]} // c'') = Inr (projr (tokenize (js ''{\"a\": [1.5, true, null]} // c'')))"
    by (simp add: tokenize_eval)
  show ?thesis by (rule tokenize_tokens_wf [OF t])
qed

theorem tokenize_bounds_witness:
  "length (projr (tokenize (js ''{'' @ [10] @ js ''  \"k\": 1}''))) \<le> length (js ''{'' @ [10] @ js ''  \"k\": 1}'') \<and>
   list_all range_ok (projr (tokenize (js ''{'' @ [10] @ js ''  \"k\": 1}'')))"
proof -
  have t: "tokenize (js ''{'' @ [10] @ js ''  \"k\": 1}'') = Inr (projr (tokenize (js ''{'' @ [10] @ js ''  \"k\": 1}'')))"
    by (simp add: tokenize_eval)
  show ?thesis by (rule tokenize_bounds [OF t])
qed

end
