(* ===== verification/Ast.thy ===== *)
theory Ast
  imports Tokens
begin

text \<open>
  The AST builder of \<open>src/src/json-parse-ast.js\<close> (\<open>parseTokens\<close> and its helpers;
  \<open>src/src/json-parse.js\<close> holds the same builder without \<open>extractValues\<close>).
  Nodes are a datatype: seven leaf types and the two containers, whose children
  include the delimiting punctuation. The builder sets a node's \<open>parent\<close>
  property when it stores the node into a container; the model records in each
  node whether that property was set (the last field), and the query layer follows
  it upwards through node references (index paths, see \<open>Query\<close>).
  The recursive descent threads the cursor exactly as the source does. Its
  recursion is nested (the loop continues at the cursor a recursive call
  returns), so it is defined with fuel; the lemmas show that \<open>2 * length tokens + 1\<close>
  units are always enough and that more fuel never changes the result, so the
  exported \<open>parse_tokens\<close> is the source's function on every input.
  Reading \<open>tokens[i]\<close> past the end (an unclosed container) is
  \<open>TypeError_undefined_token\<close>; a token no branch handles (a stray \<open>}\<close> or
  \<open>]\<close>, an unknown type) makes \<open>parseTokens\<close> return \<open>undefined\<close>, and the caller's
  \<open>foo[0]\<close> or \<open>[1]\<close> is \<open>TypeError_undefined_result\<close>.
\<close>

datatype node_type =
    InlineComment
  | MultilineComment
  | Whitespace
  | StringLiteral
  | NumberLiteral
  | LiteralLiteral
  | Punctuation

datatype container_type = Object | Array

text \<open>A leaf: type, raw, value (absent for comments), range, parent set.
  A container: type, children, range, parent set.\<close>

datatype ast =
    Leaf node_type jstring "jvalue option" irange bool
  | Container container_type "ast list" irange bool

fun ast_position :: "ast \<Rightarrow> irange" where
  "ast_position (Leaf _ _ _ p _) = p"
| "ast_position (Container _ _ p _) = p"

fun has_parent :: "ast \<Rightarrow> bool" where
  "has_parent (Leaf _ _ _ _ b) = b"
| "has_parent (Container _ _ _ b) = b"

fun ast_value :: "ast \<Rightarrow> jvalue option" where
  "ast_value (Leaf _ _ v _ _) = v"
| "ast_value (Container _ _ _ _) = None"

text \<open>\<open>child.parent = result\<close>\<close>

fun set_parent :: "ast \<Rightarrow> ast" where
  "set_parent (Leaf k r v p _) = Leaf k r v p True"
| "set_parent (Container k cs p _) = Container k cs p True"

text \<open>The \<open>children\<close> array of a container; a leaf has none.\<close>

fun ast_children :: "ast \<Rightarrow> ast list" where
  "ast_children (Leaf _ _ _ _ _) = []"
| "ast_children (Container _ cs _ _) = cs"

subsection \<open>The leaf parsers\<close>

definition parse_inline_comment :: "token list \<Rightarrow> nat \<Rightarrow> nat \<times> ast" where
  "parse_inline_comment tokens current =
     (Suc current, Leaf InlineComment (raw (tokens ! current)) None (position (tokens ! current)) False)"

definition parse_multiline_comment :: "token list \<Rightarrow> nat \<Rightarrow> nat \<times> ast" where
  "parse_multiline_comment tokens current =
     (Suc current, Leaf MultilineComment (raw (tokens ! current)) None (position (tokens ! current)) False)"

definition parse_string :: "token list \<Rightarrow> nat \<Rightarrow> nat \<times> ast" where
  "parse_string tokens current =
     (Suc current, Leaf StringLiteral (raw (tokens ! current)) (Some (tvalue (tokens ! current)))
        (position (tokens ! current)) False)"

definition parse_number :: "token list \<Rightarrow> nat \<Rightarrow> nat \<times> ast" where
  "parse_number tokens current =
     (Suc current, Leaf NumberLiteral (raw (tokens ! current)) (Some (tvalue (tokens ! current)))
        (position (tokens ! current)) False)"

definition parse_literal :: "token list \<Rightarrow> nat \<Rightarrow> nat \<times> ast" where
  "parse_literal tokens current =
     (Suc current, Leaf LiteralLiteral (raw (tokens ! current)) (Some (tvalue (tokens ! current)))
        (position (tokens ! current)) False)"

definition parse_whitespace :: "token list \<Rightarrow> nat \<Rightarrow> nat \<times> ast" where
  "parse_whitespace tokens current =
     (Suc current, Leaf Whitespace (raw (tokens ! current)) (Some (tvalue (tokens ! current)))
        (position (tokens ! current)) False)"

definition parse_token :: "token list \<Rightarrow> nat \<Rightarrow> nat \<times> ast" where
  "parse_token tokens current =
     (Suc current, Leaf Punctuation (raw (tokens ! current)) (Some (JString (raw (tokens ! current))))
        (position (tokens ! current)) False)"

subsection \<open>Containers\<close>

definition span_range :: "token list \<Rightarrow> nat \<Rightarrow> nat \<Rightarrow> irange" where
  "span_range tokens current cur =
     \<lparr>startLineNumber = startLineNumber (position (tokens ! current)),
      startColumn = startColumn (position (tokens ! current)),
      endLineNumber = endLineNumber (position (tokens ! cur)),
      endColumn = endColumn (position (tokens ! cur))\<rparr>"

text \<open>
  \<open>parseObject\<close> after its loop: the opening brace gets its parent, the closing
  brace is pushed without one.
\<close>

definition make_object :: "token list \<Rightarrow> nat \<Rightarrow> nat \<Rightarrow> ast list \<Rightarrow> ast" where
  "make_object tokens current cur children =
     Container Object
       (set_parent (snd (parse_token tokens current)) # children @ [snd (parse_token tokens cur)])
       (span_range tokens current cur) False"

text \<open>\<open>parseArray\<close> after its loop: both brackets get their parent.\<close>

definition make_array :: "token list \<Rightarrow> nat \<Rightarrow> nat \<Rightarrow> ast list \<Rightarrow> ast" where
  "make_array tokens current cur children =
     Container Array
       (set_parent (snd (parse_token tokens current)) # children
          @ [set_parent (snd (parse_token tokens cur))])
       (span_range tokens current cur) False"

subsection \<open>The recursive descent\<close>

text \<open>
  \<open>parse_tokens_from\<close> is the internal \<open>parseTokens(tokens, current)\<close>;
  \<open>parse_children\<close> is the \<open>while (tokens[cur].raw !== close)\<close> loop of
  \<open>parseObject\<close> and \<open>parseArray\<close>, which stores each child with its parent set.
  Every call spends one unit of fuel.
\<close>

fun parse_tokens_from :: "nat \<Rightarrow> token list \<Rightarrow> nat \<Rightarrow> error + (nat \<times> ast)"
and parse_children :: "nat \<Rightarrow> jstring \<Rightarrow> token list \<Rightarrow> nat \<Rightarrow> error + (nat \<times> ast list)"
where
  "parse_tokens_from 0 tokens current = Inl Out_of_fuel"
| "parse_tokens_from (Suc fuel) tokens current =
     (if length tokens \<le> current then Inl TypeError_undefined_token
      else
        (case ttype (tokens ! current) of
           TInlineComment \<Rightarrow> Inr (parse_inline_comment tokens current)
         | TMultilineComment \<Rightarrow> Inr (parse_multiline_comment tokens current)
         | TWhitespace \<Rightarrow> Inr (parse_whitespace tokens current)
         | TString \<Rightarrow> Inr (parse_string tokens current)
         | TLiteral \<Rightarrow> Inr (parse_literal tokens current)
         | TNumber \<Rightarrow> Inr (parse_number tokens current)
         | TPunctuation \<Rightarrow>
             (if raw (tokens ! current) = js ''{'' then
                (case parse_children fuel (js ''}'') tokens (Suc current) of
                   Inl e \<Rightarrow> Inl e
                 | Inr (cur, children) \<Rightarrow> Inr (Suc cur, make_object tokens current cur children))
              else if raw (tokens ! current) = js ''['' then
                (case parse_children fuel (js '']'') tokens (Suc current) of
                   Inl e \<Rightarrow> Inl e
                 | Inr (cur, children) \<Rightarrow> Inr (Suc cur, make_array tokens current cur children))
              else if raw (tokens ! current) = js '':'' \<or> raw (tokens ! current) = js '','' then
                Inr (parse_token tokens current)
              else Inl TypeError_undefined_result)
         | TOther _ \<Rightarrow> Inl TypeError_undefined_result))"
| "parse_children 0 close tokens cur = Inl Out_of_fuel"
| "parse_children (Suc fuel) close tokens cur =
     (if length tokens \<le> cur then Inl TypeError_undefined_token
      else if raw (tokens ! cur) = close then Inr (cur, [])
      else
        (case parse_tokens_from fuel tokens cur of
           Inl e \<Rightarrow> Inl e
         | Inr (cur', child) \<Rightarrow>
             (case parse_children fuel close tokens cur' of
                Inl e \<Rightarrow> Inl e
              | Inr (cur'', children) \<Rightarrow> Inr (cur'', set_parent child # children))))"

definition parse_fuel :: "token list \<Rightarrow> nat" where
  "parse_fuel tokens = 2 * length tokens + 1"

text \<open>The exported \<open>parseTokens(tokens)\<close>: \<open>parseTokens(tokens, 0)[1]\<close>.\<close>

definition parse_tokens :: "token list \<Rightarrow> error + ast" where
  "parse_tokens tokens =
     (case parse_tokens_from (parse_fuel tokens) tokens 0 of
        Inl e \<Rightarrow> Inl e
      | Inr (_, node) \<Rightarrow> Inr node)"

subsection \<open>The derived views of a container\<close>

text \<open>The \<open>raw\<close> getter: the concatenation of the children's raw texts.\<close>

fun ast_raw :: "ast \<Rightarrow> jstring" where
  "ast_raw (Leaf _ r _ _ _) = r"
| "ast_raw (Container _ cs _ _) = concat (map ast_raw cs)"

definition is_value_node :: "ast \<Rightarrow> bool" where
  "is_value_node n =
     (case n of
        Leaf k _ _ _ _ \<Rightarrow> k \<in> {StringLiteral, NumberLiteral, LiteralLiteral}
      | Container _ _ _ _ \<Rightarrow> True)"

text \<open>\<open>extractValues\<close> of an array: the indices of the value children, in order.\<close>

fun extract_values_array :: "ast list \<Rightarrow> nat \<Rightarrow> nat list" where
  "extract_values_array [] i = []"
| "extract_values_array (c # cs) i =
     (if is_value_node c then i # extract_values_array cs (Suc i) else extract_values_array cs (Suc i))"

text \<open>
  \<open>extractValues\<close> of an object: the loop with its \<open>isKey\<close> toggle and
  \<open>currentKey\<close> (\<open>null\<close> is \<open>None\<close>), producing index pairs (key, value).
\<close>

fun extract_values_object :: "ast list \<Rightarrow> nat \<Rightarrow> bool \<Rightarrow> nat option \<Rightarrow> (nat option \<times> nat) list" where
  "extract_values_object [] i isKey currentKey = []"
| "extract_values_object (c # cs) i isKey currentKey =
     (if is_value_node c then
        (if isKey then extract_values_object cs (Suc i) False (Some i)
         else (currentKey, i) # extract_values_object cs (Suc i) True currentKey)
      else extract_values_object cs (Suc i) isKey currentKey)"

text \<open>The reference the object loop is compared with: consecutive values paired up.\<close>

fun pair_up :: "nat list \<Rightarrow> (nat \<times> nat) list" where
  "pair_up (k # v # rest) = (k, v) # pair_up rest"
| "pair_up _ = []"

subsection \<open>The parent links the builder sets\<close>

text \<open>
  Which children have their \<open>parent\<close> set: every child of an array; every child
  of an object except the last, which is its closing brace: no value, and no
  \<open>parent\<close>. The builder establishes this for every container it makes.
\<close>

fun links_ok :: "ast \<Rightarrow> bool" where
  "links_ok (Leaf _ _ _ _ _) = True"
| "links_ok (Container Object cs _ _) =
     (cs \<noteq> [] \<and> \<not> is_value_node (last cs) \<and> \<not> has_parent (last cs) \<and>
      list_all has_parent (butlast cs) \<and> list_all links_ok cs)"
| "links_ok (Container Array cs _ _) = (cs \<noteq> [] \<and> list_all has_parent cs \<and> list_all links_ok cs)"

subsection \<open>Evaluation rules\<close>

text \<open>Unfolding rules for a numeral amount of fuel, used to evaluate the parser on concrete tokens.\<close>

lemma parse_tokens_from_eval:
  "parse_tokens_from f tokens current =
   (if f = 0 then Inl Out_of_fuel else
     (if length tokens \<le> current then Inl TypeError_undefined_token
      else
        (case ttype (tokens ! current) of
           TInlineComment \<Rightarrow> Inr (parse_inline_comment tokens current)
         | TMultilineComment \<Rightarrow> Inr (parse_multiline_comment tokens current)
         | TWhitespace \<Rightarrow> Inr (parse_whitespace tokens current)
         | TString \<Rightarrow> Inr (parse_string tokens current)
         | TLiteral \<Rightarrow> Inr (parse_literal tokens current)
         | TNumber \<Rightarrow> Inr (parse_number tokens current)
         | TPunctuation \<Rightarrow>
             (if raw (tokens ! current) = js ''{'' then
                (case parse_children (f - 1) (js ''}'') tokens (Suc current) of
                   Inl e \<Rightarrow> Inl e
                 | Inr (cur, children) \<Rightarrow> Inr (Suc cur, make_object tokens current cur children))
              else if raw (tokens ! current) = js ''['' then
                (case parse_children (f - 1) (js '']'') tokens (Suc current) of
                   Inl e \<Rightarrow> Inl e
                 | Inr (cur, children) \<Rightarrow> Inr (Suc cur, make_array tokens current cur children))
              else if raw (tokens ! current) = js '':'' \<or> raw (tokens ! current) = js '','' then
                Inr (parse_token tokens current)
              else Inl TypeError_undefined_result)
         | TOther _ \<Rightarrow> Inl TypeError_undefined_result)))"
proof (cases "f = 0")
  case False
  then have f: "Suc (f - 1) = f" by simp
  from parse_tokens_from.simps(2) [of "f - 1" tokens current, unfolded f] False show ?thesis
    by (simp only: if_False)
qed simp

lemma parse_children_eval:
  "parse_children f close tokens cur =
   (if f = 0 then Inl Out_of_fuel else
     (if length tokens \<le> cur then Inl TypeError_undefined_token
      else if raw (tokens ! cur) = close then Inr (cur, [])
      else
        (case parse_tokens_from (f - 1) tokens cur of
           Inl e \<Rightarrow> Inl e
         | Inr (cur', child) \<Rightarrow>
             (case parse_children (f - 1) close tokens cur' of
                Inl e \<Rightarrow> Inl e
              | Inr (cur'', children) \<Rightarrow> Inr (cur'', set_parent child # children)))))"
proof (cases "f = 0")
  case False
  then have f: "Suc (f - 1) = f" by simp
  from parse_children.simps(2) [of "f - 1" close tokens cur, unfolded f] False show ?thesis
    by (simp only: if_False)
qed simp

lemmas leaf_parsers = parse_inline_comment_def parse_multiline_comment_def parse_whitespace_def
  parse_string_def parse_literal_def parse_number_def parse_token_def

lemmas parse_eval = parse_tokens_def parse_fuel_def leaf_parsers make_object_def make_array_def
  span_range_def parse_tokens_from_eval parse_children_eval

subsection \<open>Cursor progress, raw text, fuel\<close>

lemma set_parent_raw [simp]: "ast_raw (set_parent n) = ast_raw n"
  by (cases n) simp_all

lemma make_object_raw:
  assumes "Suc cur \<le> c" "c < length ts"
    and "concat (map ast_raw kids) = concat (map raw (take (c - Suc cur) (drop (Suc cur) ts)))"
  shows "ast_raw (make_object ts cur c kids) = concat (map raw (take (Suc c - cur) (drop cur ts)))"
  using assms by (simp add: make_object_def parse_token_def take_drop_enclosed)

lemma make_array_raw:
  assumes "Suc cur \<le> c" "c < length ts"
    and "concat (map ast_raw kids) = concat (map raw (take (c - Suc cur) (drop (Suc cur) ts)))"
  shows "ast_raw (make_array ts cur c kids) = concat (map raw (take (Suc c - cur) (drop cur ts)))"
  using assms by (simp add: make_array_def parse_token_def take_drop_enclosed)

lemma parse_progress:
  "parse_tokens_from f ts cur = Inr (c, n) \<Longrightarrow>
     cur < c \<and> c \<le> length ts \<and> ast_raw n = concat (map raw (take (c - cur) (drop cur ts)))"
  "parse_children f cl ts cur = Inr (c, ns) \<Longrightarrow>
     cur \<le> c \<and> c < length ts \<and> raw (ts ! c) = cl \<and>
     concat (map ast_raw ns) = concat (map raw (take (c - cur) (drop cur ts)))"
proof (induction f ts cur and f cl ts cur arbitrary: c n and c ns rule: parse_tokens_from_parse_children.induct)
  case (2 fuel tokens current)
  from "2.prems" have lt: "current < length tokens" by (simp split: if_splits)
  show ?case
  proof (cases "ttype (tokens ! current)")
    case TPunctuation
    show ?thesis
    proof (cases "raw (tokens ! current) = js ''{''")
      case True
      with "2.prems" lt TPunctuation obtain c' kids where
        ch: "parse_children fuel (js ''}'') tokens (Suc current) = Inr (c', kids)"
        and cn: "c = Suc c'" "n = make_object tokens current c' kids"
        by (auto split: sum.splits)
      from "2.IH"(1) [OF _ TPunctuation True ch] lt have
        "Suc current \<le> c' \<and> c' < length tokens \<and>
         concat (map ast_raw kids) = concat (map raw (take (c' - Suc current) (drop (Suc current) tokens)))"
        by simp
      with cn show ?thesis by (simp add: make_object_raw)
    next
      case nb: False
      show ?thesis
      proof (cases "raw (tokens ! current) = js ''[''")
        case True
        with "2.prems" lt TPunctuation nb obtain c' kids where
          ch: "parse_children fuel (js '']'') tokens (Suc current) = Inr (c', kids)"
          and cn: "c = Suc c'" "n = make_array tokens current c' kids"
          by (auto split: sum.splits)
        from "2.IH"(2) [OF _ TPunctuation nb True ch] lt have
          "Suc current \<le> c' \<and> c' < length tokens \<and>
           concat (map ast_raw kids) = concat (map raw (take (c' - Suc current) (drop (Suc current) tokens)))"
          by simp
        with cn show ?thesis by (simp add: make_array_raw)
      next
        case False
        with "2.prems" lt TPunctuation nb show ?thesis
          by (auto simp: parse_token_def take_drop_one split: if_splits)
      qed
    qed
  qed (use "2.prems" lt in \<open>auto simp: leaf_parsers take_drop_one\<close>)
next
  case (4 fuel close tokens cur)
  from "4.prems" have lt: "cur < length tokens" by (simp split: if_splits)
  show ?case
  proof (cases "raw (tokens ! cur) = close")
    case True
    with "4.prems" lt show ?thesis by simp
  next
    case False
    with "4.prems" lt obtain c' child ns' where
      p: "parse_tokens_from fuel tokens cur = Inr (c', child)"
      and ch: "parse_children fuel close tokens c' = Inr (c, ns')"
      and ns: "ns = set_parent child # ns'"
      by (auto split: sum.splits)
    from "4.IH"(1) [OF _ False p] lt have ih1: "cur < c'" "c' \<le> length tokens"
      "ast_raw child = concat (map raw (take (c' - cur) (drop cur tokens)))" by auto
    from "4.IH"(2) [OF _ False p refl ch] lt have ih2: "c' \<le> c" "c < length tokens" "raw (tokens ! c) = close"
      "concat (map ast_raw ns') = concat (map raw (take (c - c') (drop c' tokens)))" by auto
    have "take (c - cur) (drop cur tokens) = take (c' - cur) (drop cur tokens) @ take (c - c') (drop c' tokens)"
      using take_drop_split [of cur c' c tokens] ih1(1) ih2(1) by simp
    with ih1 ih2 ns show ?thesis by simp
  qed
qed simp_all


lemma parse_fuel_mono:
  "\<forall>g ts cur cl. f \<le> g \<longrightarrow>
     (parse_tokens_from f ts cur \<noteq> Inl Out_of_fuel \<longrightarrow> parse_tokens_from g ts cur = parse_tokens_from f ts cur) \<and>
     (parse_children f cl ts cur \<noteq> Inl Out_of_fuel \<longrightarrow> parse_children g cl ts cur = parse_children f cl ts cur)"
proof (induction f)
  case 0
  then show ?case by simp
next
  case (Suc f)
  show ?case
  proof (intro allI impI conjI)
    fix g ts cur cl
    assume "Suc f \<le> g"
    then obtain g' where g: "g = Suc g'" and fg: "f \<le> g'" by (cases g) auto
    have ihp: "parse_tokens_from f ts' c \<noteq> Inl Out_of_fuel \<Longrightarrow> parse_tokens_from g' ts' c = parse_tokens_from f ts' c" for ts' c
      using Suc.IH fg by blast
    have ihc: "parse_children f cl' ts' c \<noteq> Inl Out_of_fuel \<Longrightarrow> parse_children g' cl' ts' c = parse_children f cl' ts' c" for cl' ts' c
      using Suc.IH fg by blast
    show "parse_tokens_from (Suc f) ts cur \<noteq> Inl Out_of_fuel \<Longrightarrow> parse_tokens_from g ts cur = parse_tokens_from (Suc f) ts cur"
      unfolding g
      by (cases "parse_children f (js ''}'') ts (Suc cur)"; cases "parse_children f (js '']'') ts (Suc cur)")
        (auto simp: ihc split: token_type.splits if_splits)
    show "parse_children (Suc f) cl ts cur \<noteq> Inl Out_of_fuel \<Longrightarrow> parse_children g cl ts cur = parse_children (Suc f) cl ts cur"
    proof -
      assume ne: "parse_children (Suc f) cl ts cur \<noteq> Inl Out_of_fuel"
      show ?thesis
      proof (cases "length ts \<le> cur \<or> raw (ts ! cur) = cl")
        case True
        then show ?thesis unfolding g by auto
      next
        case False
        show ?thesis
        proof (cases "parse_tokens_from f ts cur")
          case (Inl e)
          with False ne show ?thesis unfolding g by (auto simp: ihp)
        next
          case (Inr r)
          then obtain c' child where r: "parse_tokens_from f ts cur = Inr (c', child)" by (cases r) auto
          with False ne show ?thesis unfolding g
            by (cases "parse_children f cl ts c'") (auto simp: ihp ihc)
        qed
      qed
    qed
  qed
qed


lemma parse_fuel_suffices:
  "(2 * (length ts - cur) + 1 \<le> f \<longrightarrow> parse_tokens_from f ts cur \<noteq> Inl Out_of_fuel) \<and>
   (2 * (length ts - cur) + 2 \<le> f \<longrightarrow> parse_children f cl ts cur \<noteq> Inl Out_of_fuel)"
proof (induction f arbitrary: ts cur cl)
  case 0
  then show ?case by simp
next
  case (Suc f)
  have ihp: "parse_tokens_from f ts' c \<noteq> Inl Out_of_fuel" if "2 * (length ts' - c) + 1 \<le> f" for ts' c
    using Suc.IH [of ts' c cl] that by (rule conjunct1 [THEN mp])
  have ihc: "parse_children f cl' ts' c \<noteq> Inl Out_of_fuel" if "2 * (length ts' - c) + 2 \<le> f" for cl' ts' c
    using Suc.IH [of ts' c cl'] that by (rule conjunct2 [THEN mp])
  show ?case
  proof (intro conjI impI)
    assume b: "2 * (length ts - cur) + 1 \<le> Suc f"
    show "parse_tokens_from (Suc f) ts cur \<noteq> Inl Out_of_fuel"
    proof (cases "length ts \<le> cur")
      case False
      then have "2 * (length ts - Suc cur) + 2 \<le> f" using b by simp
      then have "parse_children f cl' ts (Suc cur) \<noteq> Inl Out_of_fuel" for cl' by (rule ihc)
      then show ?thesis using False
        by (cases "ttype (ts ! cur)") (auto simp: leaf_parsers split: sum.splits)
    qed simp
  next
    assume b: "2 * (length ts - cur) + 2 \<le> Suc f"
    show "parse_children (Suc f) cl ts cur \<noteq> Inl Out_of_fuel"
    proof (cases "length ts \<le> cur \<or> raw (ts ! cur) = cl")
      case False
      then have "2 * (length ts - cur) + 1 \<le> f" using b by simp
      then have p: "parse_tokens_from f ts cur \<noteq> Inl Out_of_fuel" by (rule ihp)
      show ?thesis
      proof (cases "parse_tokens_from f ts cur")
        case (Inl e)
        with False p show ?thesis by auto
      next
        case (Inr r)
        then obtain c' child where r: "parse_tokens_from f ts cur = Inr (c', child)" by (cases r) auto
        from parse_progress(1) [OF r] have "cur < c'" "c' \<le> length ts" by auto
        with False b have "2 * (length ts - c') + 2 \<le> f" by simp
        then have "parse_children f cl ts c' \<noteq> Inl Out_of_fuel" by (rule ihc)
        with False r show ?thesis by (auto split: sum.splits)
      qed
    qed auto
  qed
qed

subsection \<open>Results do not depend on the fuel\<close>

text \<open>
  A result other than running out of fuel stays the same with more fuel, and is the
  result of the exported \<open>parse_tokens\<close>: any fuel that yields it proves it.
\<close>

lemma parse_tokens_from_more_fuel_gen:
  "parse_tokens_from f ts cur = r \<Longrightarrow> r \<noteq> Inl Out_of_fuel \<Longrightarrow> f \<le> g \<Longrightarrow> parse_tokens_from g ts cur = r"
  using parse_fuel_mono [of f] by metis

lemma parse_children_more_fuel_gen:
  "parse_children f cl ts cur = r \<Longrightarrow> r \<noteq> Inl Out_of_fuel \<Longrightarrow> f \<le> g \<Longrightarrow> parse_children g cl ts cur = r"
  using parse_fuel_mono [of f] by metis

lemma parse_tokens_from_more_fuel:
  "parse_tokens_from f ts cur = Inr r \<Longrightarrow> f \<le> g \<Longrightarrow> parse_tokens_from g ts cur = Inr r"
  by (erule parse_tokens_from_more_fuel_gen) simp_all

lemma parse_children_more_fuel:
  "parse_children f cl ts cur = Inr r \<Longrightarrow> f \<le> g \<Longrightarrow> parse_children g cl ts cur = Inr r"
  by (erule parse_children_more_fuel_gen) simp_all

lemma parse_tokens_from_more_fuel_err:
  "parse_tokens_from f ts cur = Inl e \<Longrightarrow> e \<noteq> Out_of_fuel \<Longrightarrow> f \<le> g \<Longrightarrow> parse_tokens_from g ts cur = Inl e"
  by (erule parse_tokens_from_more_fuel_gen) simp_all

lemma parse_children_more_fuel_err:
  "parse_children f cl ts cur = Inl e \<Longrightarrow> e \<noteq> Out_of_fuel \<Longrightarrow> f \<le> g \<Longrightarrow> parse_children g cl ts cur = Inl e"
  by (erule parse_children_more_fuel_gen) simp_all

lemma parse_tokens_from_fuel_indep:
  assumes "parse_tokens_from f ts 0 = r" "r \<noteq> Inl Out_of_fuel"
  shows "parse_tokens_from (parse_fuel ts) ts 0 = r"
proof -
  let ?g = "max f (parse_fuel ts)"
  have "parse_tokens_from (parse_fuel ts) ts 0 \<noteq> Inl Out_of_fuel"
    using parse_fuel_suffices [of ts 0 "parse_fuel ts"] by (simp add: parse_fuel_def)
  then have "parse_tokens_from ?g ts 0 = parse_tokens_from (parse_fuel ts) ts 0"
    by (rule parse_tokens_from_more_fuel_gen [OF refl]) simp
  moreover have "parse_tokens_from ?g ts 0 = r"
    by (rule parse_tokens_from_more_fuel_gen [OF assms]) simp
  ultimately show ?thesis by simp
qed

lemma parse_tokens_from_any_fuel:
  "parse_tokens_from f ts 0 = Inr (c, n) \<Longrightarrow> parse_tokens ts = Inr n"
  by (drule parse_tokens_from_fuel_indep) (simp_all add: parse_tokens_def)

lemma parse_tokens_any_fuel_err:
  "parse_tokens_from f ts 0 = Inl e \<Longrightarrow> e \<noteq> Out_of_fuel \<Longrightarrow> parse_tokens ts = Inl e"
  by (drule parse_tokens_from_fuel_indep) (simp_all add: parse_tokens_def)

subsection \<open>Parent links and the values of a container\<close>

lemma has_parent_set_parent [simp]: "has_parent (set_parent n)"
  by (cases n) simp_all

lemma links_ok_set_parent [simp]: "links_ok (set_parent n) = links_ok n"
proof (cases n)
  case (Container k cs rg b)
  then show ?thesis by (cases k) simp_all
qed simp

lemma is_value_node_set_parent [simp]: "is_value_node (set_parent n) = is_value_node n"
  by (cases n) (simp_all add: is_value_node_def)

lemma parse_links:
  "parse_tokens_from f ts cur = Inr (c, n) \<Longrightarrow> links_ok n \<and> \<not> has_parent n"
  "parse_children f cl ts cur = Inr (c, ns) \<Longrightarrow> list_all has_parent ns \<and> list_all links_ok ns"
proof (induction f ts cur and f cl ts cur arbitrary: c n and c ns rule: parse_tokens_from_parse_children.induct)
  case (2 fuel tokens current)
  show ?case
  proof (cases "ttype (tokens ! current) = TPunctuation \<and> raw (tokens ! current) = js ''{''")
    case True
    with "2.prems" obtain c' kids where
      ch: "parse_children fuel (js ''}'') tokens (Suc current) = Inr (c', kids)"
      and n: "n = make_object tokens current c' kids"
      by (auto split: if_splits sum.splits)
    from "2.IH"(1) [OF _ _ _ ch] "2.prems" True have "list_all has_parent kids \<and> list_all links_ok kids"
      by (auto split: if_splits)
    with n show ?thesis
      by (simp add: make_object_def parse_token_def is_value_node_def butlast_append)
  next
    case nb: False
    show ?thesis
    proof (cases "ttype (tokens ! current) = TPunctuation \<and> raw (tokens ! current) = js ''[''")
      case True
      with nb have "raw (tokens ! current) \<noteq> js ''{''" by auto
      with True "2.prems" obtain c' kids where
        ch: "parse_children fuel (js '']'') tokens (Suc current) = Inr (c', kids)"
        and n: "n = make_array tokens current c' kids"
        by (auto split: if_splits sum.splits)
      from "2.IH"(2) [OF _ _ _ _ ch] "2.prems" True \<open>raw (tokens ! current) \<noteq> js ''{''\<close>
      have "list_all has_parent kids \<and> list_all links_ok kids"
        by (auto split: if_splits)
      with n show ?thesis by (simp add: make_array_def parse_token_def)
    next
      case False
      with nb "2.prems" show ?thesis
        by (auto simp: leaf_parsers split: if_splits token_type.splits)
    qed
  qed
next
  case (4 fuel close tokens cur)
  then show ?case
    by (auto split: if_splits sum.splits)
qed simp_all


lemma extract_values_array_mem_gen:
  "j \<in> set (extract_values_array cs i) \<longleftrightarrow> i \<le> j \<and> j < i + length cs \<and> is_value_node (cs ! (j - i))"
proof (induction cs arbitrary: i)
  case Nil
  then show ?case by simp
next
  case (Cons c cs)
  show ?case
  proof (cases "j = i")
    case True
    with Cons.IH [of "Suc i"] show ?thesis by simp
  next
    case False
    then have "i \<le> j \<longleftrightarrow> Suc i \<le> j" by auto
    moreover have "i < j \<Longrightarrow> (c # cs) ! (j - i) = cs ! (j - Suc i)"
      by (simp add: nth_Cons')
    ultimately show ?thesis using Cons.IH [of "Suc i"] False by auto
  qed
qed

lemma extract_values_array_mem:
  "j \<in> set (extract_values_array cs 0) \<longleftrightarrow> j < length cs \<and> is_value_node (cs ! j)"
  by (simp add: extract_values_array_mem_gen)

lemma extract_values_array_sorted: "sorted_wrt (<) (extract_values_array cs i)"
  by (induction cs arbitrary: i) (auto simp: extract_values_array_mem_gen)

lemma extract_values_object_pair_up_gen:
  "(\<forall>i ck. extract_values_object cs i True ck = map (apfst Some) (pair_up (extract_values_array cs i))) \<and>
   (\<forall>i k. extract_values_object cs i False (Some k) =
      (case extract_values_array cs i of
         [] \<Rightarrow> []
       | v # vs \<Rightarrow> (Some k, v) # map (apfst Some) (pair_up vs)))"
proof (induction cs)
  case Nil
  then show ?case by simp
next
  case (Cons c cs)
  then show ?case
    by (auto split: list.splits)
qed

lemma pair_up_mem:
  "sorted_wrt (<) xs \<Longrightarrow> (k, v) \<in> set (pair_up xs) \<Longrightarrow> k \<in> set xs \<and> v \<in> set xs \<and> k < v"
  by (induction xs rule: pair_up.induct) auto

lemma pair_up_distinct_snd: "sorted_wrt (<) xs \<Longrightarrow> distinct (map snd (pair_up xs))"
proof (induction xs rule: pair_up.induct)
  case (1 k v rest)
  then show ?case by (auto dest: pair_up_mem)
qed simp_all

lemma pair_up_key_not_value:
  "sorted_wrt (<) xs \<Longrightarrow> (k, v) \<in> set (pair_up xs) \<Longrightarrow> (k', k) \<notin> set (pair_up xs)"
proof (induction xs rule: pair_up.induct)
  case (1 a b rest)
  then show ?case by (auto dest: pair_up_mem)
qed simp_all

text \<open>
  C20 (equivalence): the object \<open>extractValues\<close> loop, with its \<open>isKey\<close> toggle and
  \<open>currentKey\<close>, pairs up consecutive value children: its result is the array
  view's list of value indices cut into (key, value) pairs, every key present.
\<close>

theorem extract_values_object_pairs:
  "extract_values_object cs i True ck = map (apfst Some) (pair_up (extract_values_array cs i))"
  using extract_values_object_pair_up_gen by blast

text \<open>
  C6: the fuel given to the exported parser is enough: with at least
  \<open>2 * length tokens + 1\<close> units the descent never runs out, and any larger amount
  gives the same result, so \<open>parse_tokens\<close> computes the recursive descent of the
  source on every token list.
\<close>

theorem parse_fuel_enough:
  assumes "parse_fuel ts \<le> g"
  shows "parse_tokens_from g ts 0 \<noteq> Inl Out_of_fuel \<and>
         parse_tokens_from g ts 0 = parse_tokens_from (parse_fuel ts) ts 0"
proof -
  have "2 * (length ts - 0) + 1 \<le> parse_fuel ts" by (simp add: parse_fuel_def)
  with parse_fuel_suffices [of ts 0 "parse_fuel ts"]
  have ne: "parse_tokens_from (parse_fuel ts) ts 0 \<noteq> Inl Out_of_fuel" by blast
  have "parse_tokens_from (parse_fuel ts) ts 0 \<noteq> Inl Out_of_fuel \<longrightarrow>
        parse_tokens_from g ts 0 = parse_tokens_from (parse_fuel ts) ts 0"
    using parse_fuel_mono [of "parse_fuel ts"] assms by blast
  with ne show ?thesis by simp
qed

text \<open>
  C8: the root the exported parser returns reproduces its source text: its raw
  text is the concatenation of the raw texts of a non-empty prefix of the tokens.
\<close>

theorem parse_tokens_raw:
  assumes "parse_tokens ts = Inr n"
  shows "\<exists>c. 0 < c \<and> c \<le> length ts \<and> ast_raw n = concat (map raw (take c ts))"
proof -
  from assms obtain c where "parse_tokens_from (parse_fuel ts) ts 0 = Inr (c, n)"
    by (auto simp: parse_tokens_def split: sum.splits)
  from parse_progress(1) [OF this] show ?thesis by auto
qed

end
