(* ===== verification/Query.thy ===== *)
theory Query
  imports Ast
begin

text \<open>
  The position query layer of \<open>src/src/json-parse-ast.js\<close>: \<open>findAtPosition\<close>,
  \<open>getKeyInParent\<close> and \<open>isKeyInParent\<close>. A node is referred to by the path
  of child indices from the root it was found in, so that JavaScript's identity
  comparison \<open>values[i] === ast\<close> is a comparison of child indices, and the
  \<open>parent\<close> property is \<open>parent_ref\<close>: the path without its last index when
  the builder set the property, nothing otherwise. \<open>findAtPosition\<close> returns
  \<open>null\<close>, a node, or \<open>undefined\<close> (its loop over a container's children can
  fall off the end); the three outcomes are a datatype.
  The lemmas: a node found is a leaf whose range contains the position, reached
  through containers whose ranges contain it; \<open>null\<close> exactly when the position
  is outside the root; in a tree with the builder's parent links, the key of an
  object member's value is its key's decoded value, a key is a key and a value is
  not, the i-th array element answers \<open>i\<close>, and the queries never throw.
\<close>

definition in_range :: "ipos \<Rightarrow> irange \<Rightarrow> bool" where
  "in_range pos rg =
     (if lineNumber pos < startLineNumber rg \<or> endLineNumber rg < lineNumber pos then False
      else if lineNumber pos = startLineNumber rg \<and> column pos < startColumn rg then False
      else if lineNumber pos = endLineNumber rg \<and> endColumn rg < column pos then False
      else True)"

datatype 'a find_result = JSNull | JSUndefined | JSNode 'a

fun find_at_position :: "ast \<Rightarrow> ipos \<Rightarrow> nat list find_result"
and find_in_children :: "ast list \<Rightarrow> nat \<Rightarrow> ipos \<Rightarrow> nat list find_result" where
  "find_at_position (Leaf k r v rg b) pos =
     (if in_range pos rg then JSNode [] else JSNull)"
| "find_at_position (Container k cs rg b) pos =
     (if in_range pos rg then find_in_children cs 0 pos else JSNull)"
| "find_in_children [] i pos = JSUndefined"
| "find_in_children (c # cs) i pos =
     (case find_at_position c pos of
        JSNull \<Rightarrow> find_in_children cs (Suc i) pos
      | JSUndefined \<Rightarrow> JSUndefined
      | JSNode q \<Rightarrow> JSNode (i # q))"

text \<open>The node a path refers to.\<close>

fun node_at :: "ast \<Rightarrow> nat list \<Rightarrow> ast option" where
  "node_at n [] = Some n"
| "node_at (Leaf _ _ _ _ _) (i # is) = None"
| "node_at (Container _ cs _ _) (i # is) = (if i < length cs then node_at (cs ! i) is else None)"

text \<open>The \<open>parent\<close> property of the node at a path.\<close>

definition parent_ref :: "ast \<Rightarrow> nat list \<Rightarrow> nat list option" where
  "parent_ref root p =
     (case node_at root p of
        None \<Rightarrow> None
      | Some n \<Rightarrow> if p \<noteq> [] \<and> has_parent n then Some (butlast p) else None)"

datatype key = KIndex nat | KValue jvalue

text \<open>
  \<open>getKeyInParent\<close>: \<open>undefined\<close> is \<open>None\<close>; the key of an object member is
  \<open>values[i].key.value\<close>, \<open>undefined\<close> for a container key and a
  \<open>TypeError\<close> for a \<open>null\<close> key.
\<close>

definition get_key_in_parent :: "ast \<Rightarrow> nat list \<Rightarrow> error + key option" where
  "get_key_in_parent root p =
     (case parent_ref root p of
        None \<Rightarrow> Inr None
      | Some q \<Rightarrow>
          (case node_at root q of
             Some (Container Array cs _ _) \<Rightarrow>
               Inr (map_option KIndex (first_index (\<lambda>v. v = last p) (extract_values_array cs 0)))
           | Some (Container Object cs _ _) \<Rightarrow>
               (case find (\<lambda>kv. snd kv = last p) (extract_values_object cs 0 True None) of
                  None \<Rightarrow> Inr None
                | Some (None, _) \<Rightarrow> Inl TypeError_null_key
                | Some (Some k, _) \<Rightarrow> Inr (map_option KValue (ast_value (cs ! k))))
           | _ \<Rightarrow> Inl Invalid_parent_type))"

definition is_string_literal :: "ast \<Rightarrow> bool" where
  "is_string_literal n = (case n of Leaf StringLiteral _ _ _ _ \<Rightarrow> True | _ \<Rightarrow> False)"

definition is_key_in_parent :: "ast \<Rightarrow> nat list \<Rightarrow> error + bool" where
  "is_key_in_parent root p =
     (case node_at root p of
        None \<Rightarrow> Inr False
      | Some n \<Rightarrow>
          if \<not> is_string_literal n then Inr False
          else (case parent_ref root p of
                  None \<Rightarrow> Inr False
                | Some q \<Rightarrow>
                    (case node_at root q of
                       Some (Container Array _ _ _) \<Rightarrow> Inr False
                     | Some (Container Object cs _ _) \<Rightarrow>
                         Inr (find (\<lambda>kv. snd kv = last p) (extract_values_object cs 0 True None) = None)
                     | _ \<Rightarrow> Inl Invalid_parent_type)))"

subsection \<open>Paths, parent links and the values of a container\<close>

lemma node_at_snoc:
  "node_at n (p @ [i]) =
     (case node_at n p of
        Some (Container _ cs _ _) \<Rightarrow> if i < length cs then Some (cs ! i) else None
      | _ \<Rightarrow> None)"
proof (induction p arbitrary: n)
  case Nil
  then show ?case by (cases n) auto
next
  case (Cons j p)
  then show ?case by (cases n) auto
qed

lemma node_at_parent:
  assumes "node_at n p = Some m" "p \<noteq> []"
  obtains k cs rg b where "node_at n (butlast p) = Some (Container k cs rg b)"
    "last p < length cs" "cs ! last p = m"
proof -
  from assms(2) obtain q i where p: "p = q @ [i]" by (cases p rule: rev_cases) auto
  with assms(1) show ?thesis using that
    by (auto simp: node_at_snoc split: option.splits ast.splits if_splits)
qed

lemma parent_ref_Some:
  assumes "parent_ref root p = Some q"
  obtains k cs rg b where "node_at root q = Some (Container k cs rg b)" "q = butlast p" "p \<noteq> []"
proof -
  from assms obtain m where m: "node_at root p = Some m" "p \<noteq> []" "q = butlast p"
    by (auto simp: parent_ref_def split: option.splits if_splits)
  from node_at_parent [OF m(1,2)] m(3) that m(2) show ?thesis by metis
qed

lemma links_ok_children: "links_ok (Container k cs rg b) \<Longrightarrow> list_all links_ok cs"
  by (cases k) auto

lemma links_ok_node_at: "links_ok n \<Longrightarrow> node_at n p = Some m \<Longrightarrow> links_ok m"
proof (induction p arbitrary: n)
  case Nil
  then show ?case by simp
next
  case (Cons i p)
  show ?case
  proof (cases n)
    case (Container k cs rg b)
    with Cons.prems have "i < length cs" "node_at (cs ! i) p = Some m" by (auto split: if_splits)
    moreover from Cons.prems(1) Container have "links_ok (cs ! i)"
      using links_ok_children [of k cs rg b] \<open>i < length cs\<close> by (simp add: list_all_length)
    ultimately show ?thesis using Cons.IH by blast
  qed (use Cons.prems in simp)
qed

lemma links_ok_value_parent:
  assumes "links_ok (Container k cs rg b)" "v < length cs" "is_value_node (cs ! v)"
  shows "has_parent (cs ! v)"
proof (cases k)
  case Object
  with assms have ne: "cs \<noteq> []" and nl: "\<not> is_value_node (last cs)"
    and hp: "list_all has_parent (butlast cs)" by auto
  have "v \<noteq> length cs - 1" using assms(3) nl ne by (auto simp: last_conv_nth)
  with assms(2) have "v < length (butlast cs)" by simp
  with hp show ?thesis by (simp add: list_all_length nth_butlast)
next
  case Array
  with assms show ?thesis by (simp add: list_all_length)
qed

lemma parse_tokens_links: "parse_tokens ts = Inr root \<Longrightarrow> links_ok root"
  using parse_links(1) by (auto simp: parse_tokens_def split: sum.splits)

lemma object_member:
  assumes "links_ok root" "node_at root q = Some (Container Object cs rg b)"
    and "(ko, v) \<in> set (extract_values_object cs 0 True None)"
  shows "\<exists>k. ko = Some k \<and> k < v \<and> v < length cs \<and> is_value_node (cs ! k) \<and>
     parent_ref root (q @ [v]) = Some q \<and> parent_ref root (q @ [k]) = Some q \<and>
     find (\<lambda>kv. snd kv = v) (extract_values_object cs 0 True None) = Some (ko, v) \<and>
     find (\<lambda>kv. snd kv = k) (extract_values_object cs 0 True None) = None"
proof -
  let ?vs = "extract_values_array cs 0"
  let ?evo = "extract_values_object cs 0 True None"
  have l: "links_ok (Container Object cs rg b)" by (rule links_ok_node_at [OF assms(1,2)])
  have e: "?evo = map (apfst Some) (pair_up ?vs)" using extract_values_object_pair_up_gen by blast
  with assms(3) obtain k where ko: "ko = Some k" and kv: "(k, v) \<in> set (pair_up ?vs)" by auto
  have s: "sorted_wrt (<) ?vs" by (rule extract_values_array_sorted)
  from pair_up_mem [OF s kv] have kvs: "k \<in> set ?vs" "v \<in> set ?vs" "k < v" by simp_all
  then have v: "v < length cs" "is_value_node (cs ! v)" and k: "k < length cs" "is_value_node (cs ! k)"
    by (simp_all add: extract_values_array_mem)
  have "has_parent (cs ! v)" by (rule links_ok_value_parent [OF l v])
  then have pv: "parent_ref root (q @ [v]) = Some q" using assms(2) v by (simp add: parent_ref_def node_at_snoc)
  have "has_parent (cs ! k)" by (rule links_ok_value_parent [OF l k])
  then have pk: "parent_ref root (q @ [k]) = Some q" using assms(2) k by (simp add: parent_ref_def node_at_snoc)
  have "distinct (map snd ?evo)" using pair_up_distinct_snd [OF s] e by (simp add: comp_def)
  then have fv: "find (\<lambda>kv. snd kv = v) ?evo = Some (ko, v)" by (rule find_snd_distinct [OF _ assms(3)])
  have "(k', k) \<notin> set (pair_up ?vs)" for k' by (rule pair_up_key_not_value [OF s kv])
  then have "find (\<lambda>kv. snd kv = k) ?evo = None" using e by (auto simp: find_None_iff)
  with ko kvs v k pv pk fv show ?thesis by blast
qed

lemma find_in_children_not_null: "find_in_children cs i pos \<noteq> JSNull"
  by (induction cs arbitrary: i) (auto split: find_result.splits)

lemma find_sound_gen:
  "find_at_position n pos = JSNode p \<Longrightarrow>
     \<exists>k r v rg b. node_at n p = Some (Leaf k r v rg b) \<and> in_range pos rg"
  "find_in_children cs i pos = JSNode p \<Longrightarrow>
     \<exists>j q k r v rg b. p = (i + j) # q \<and> j < length cs \<and> node_at (cs ! j) q = Some (Leaf k r v rg b) \<and> in_range pos rg"
proof (induction n pos and cs i pos arbitrary: p and p rule: find_at_position_find_in_children.induct)
  case (4 c cs i pos)
  show ?case
  proof (cases "find_at_position c pos")
    case JSNull
    with "4.prems" "4.IH"(2) [OF JSNull] obtain j q k r v rg b where
      "p = (Suc i + j) # q" "j < length cs" "node_at (cs ! j) q = Some (Leaf k r v rg b)" "in_range pos rg"
      by auto
    then show ?thesis by (intro exI [of _ "Suc j"]) auto
  next
    case (JSNode q)
    with "4.prems" "4.IH"(1) [OF JSNode] show ?thesis by (intro exI [of _ 0]) auto
  qed (use "4.prems" in simp)
qed (auto split: if_splits)

subsection \<open>Properties of the queries\<close>

text \<open>C19: \<open>findAtPosition\<close> returns \<open>null\<close> exactly when the position is outside the range of the node it is called on; inside it returns a node or \<open>undefined\<close>, never \<open>null\<close>.\<close>

theorem find_at_position_null:
  "find_at_position n pos = JSNull \<longleftrightarrow> \<not> in_range pos (ast_position n)"
  by (cases n) (auto simp: find_in_children_not_null)

text \<open>C18: a node \<open>findAtPosition\<close> returns is a leaf of the tree whose range contains the position, and the position is in the range of the node searched.\<close>

theorem find_at_position_found:
  assumes "find_at_position n pos = JSNode p"
  shows "\<exists>k r v rg b. node_at n p = Some (Leaf k r v rg b) \<and> in_range pos rg \<and> in_range pos (ast_position n)"
proof -
  have "in_range pos (ast_position n)" using assms by (cases n) (auto split: if_splits)
  with find_sound_gen(1) [OF assms] show ?thesis by blast
qed

text \<open>C3 (parent/key duality, keys): in a tree the builder made, for every key/value pair the object's \<open>extractValues\<close> lists, \<open>getKeyInParent\<close> of the value node is the \<open>value\<close> of the key node.\<close>

theorem get_key_in_parent_object:
  assumes "parse_tokens ts = Inr root" "node_at root q = Some (Container Object cs rg b)"
    and "(Some k, v) \<in> set (extract_values_object cs 0 True None)"
  shows "get_key_in_parent root (q @ [v]) = Inr (map_option KValue (ast_value (cs ! k)))"
  using object_member [OF parse_tokens_links [OF assms(1)] assms(2,3)] assms(2)
  by (auto simp: get_key_in_parent_def)

text \<open>C4 (parent/key duality, \<open>isKeyInParent\<close>): for every key/value pair of an object of a built tree, \<open>isKeyInParent\<close> is false on the value node, and on the key node it is true exactly when the key is a string literal.\<close>

theorem is_key_in_parent_object:
  assumes "parse_tokens ts = Inr root" "node_at root q = Some (Container Object cs rg b)"
    and "(Some k, v) \<in> set (extract_values_object cs 0 True None)"
  shows "is_key_in_parent root (q @ [v]) = Inr False \<and>
         is_key_in_parent root (q @ [k]) = Inr (is_string_literal (cs ! k))"
  using object_member [OF parse_tokens_links [OF assms(1)] assms(2,3)] assms(2)
  by (auto simp: is_key_in_parent_def node_at_snoc)

text \<open>C5 (array indexing): for every array of a built tree, \<open>getKeyInParent\<close> of the i-th element of its \<open>extractValues\<close> is i.\<close>

theorem get_key_in_parent_array:
  assumes "parse_tokens ts = Inr root" "node_at root q = Some (Container Array cs rg b)"
    and "i < length (extract_values_array cs 0)"
  shows "get_key_in_parent root (q @ [extract_values_array cs 0 ! i]) = Inr (Some (KIndex i))"
proof -
  let ?vs = "extract_values_array cs 0"
  have l: "links_ok (Container Array cs rg b)" by (rule links_ok_node_at [OF parse_tokens_links [OF assms(1)] assms(2)])
  have "?vs ! i \<in> set ?vs" using assms(3) by simp
  then have v: "?vs ! i < length cs" "is_value_node (cs ! (?vs ! i))" by (simp_all add: extract_values_array_mem)
  have "has_parent (cs ! (?vs ! i))" by (rule links_ok_value_parent [OF l v])
  then have p: "parent_ref root (q @ [?vs ! i]) = Some q" using assms(2) v by (simp add: parent_ref_def node_at_snoc)
  have "distinct ?vs" using extract_values_array_sorted [of cs 0] by (simp add: strict_sorted_iff)
  then have "first_index (\<lambda>y. y = ?vs ! i) ?vs = Some i" using assms(3) by (rule first_index_distinct)
  with p assms(2) show ?thesis by (simp add: get_key_in_parent_def)
qed

text \<open>C25: in a built tree the closing bracket of an array has the array as its \<open>parent\<close>, while the closing brace of an object has no \<open>parent\<close> at all, although it is not the root.\<close>

theorem closing_delimiter_parent:
  assumes "parse_tokens ts = Inr root" "node_at root q = Some (Container k cs rg b)"
  shows "cs \<noteq> [] \<and> parent_ref root (q @ [length cs - 1]) = (if k = Array then Some q else None)"
proof -
  have l: "links_ok (Container k cs rg b)" by (rule links_ok_node_at [OF parse_tokens_links [OF assms(1)] assms(2)])
  then have ne: "cs \<noteq> []" by (cases k) simp_all
  then have "cs ! (length cs - 1) = last cs" by (simp add: last_conv_nth)
  moreover have "has_parent (last cs) = (k = Array)" using l ne by (cases k) (simp_all add: list_all_iff)
  ultimately show ?thesis using ne assms(2) by (simp add: parent_ref_def node_at_snoc)
qed

end
