(* ===== verification/PathInference.thy ===== *)
theory PathInference
  imports Tokens
begin

text \<open>
  The incomplete-path inference of \<open>src/src/json-tokenize.js\<close> (verbatim copy in
  \<open>src/src/json-parse-ast.js\<close>): \<open>getPathInObject\<close>, a stack machine over a token
  prefix, and \<open>getPositionOfKeys\<close>, the same key/value toggle without a stack that
  collects the ranges of key strings. Each loop is a \<open>fold\<close> of its body, the
  body's if-chain is one step function over an explicit state record. The stack
  holds token values; the array marker is the string \<open>"["\<close>, as in the source,
  and the reported path drops every frame equal to it.
  The lemmas: comment and whitespace tokens (and \<open>:\<close>, \<open>,\<close>) leave both machines
  unchanged; the two machines classify keys and values alike as long as no bracket
  occurs; in every state the loop reaches (\<open>path_reachable\<close>, by rule induction)
  a value is expected only over a non-empty stack. The array handling follows the
  specification's table, which pops the array marker on the first value inside an
  array: a later array element is then taken for a key, pushed on the path by
  \<open>getPathInObject\<close> and highlighted by \<open>getPositionOfKeys\<close>, which ignores
  brackets.
\<close>

record path_state =
  stack :: "jvalue list"
  next_string_will_be_key :: bool

definition list_marker :: jvalue where
  "list_marker = JString (js ''['')"

definition path_init :: path_state where
  "path_init = \<lparr>stack = [], next_string_will_be_key = True\<rparr>"

text \<open>The body of the loop of \<open>getPathInObject\<close>.\<close>

definition path_step :: "path_state \<Rightarrow> token \<Rightarrow> path_state" where
  "path_step s t =
     (if is_punct t ''{'' then s\<lparr>next_string_will_be_key := True\<rparr>
      else if is_punct t ''}'' then \<lparr>stack = js_pop (stack s), next_string_will_be_key = True\<rparr>
      else if is_punct t ''['' then \<lparr>stack = js_push (stack s) list_marker, next_string_will_be_key = False\<rparr>
      else if is_punct t '']'' then \<lparr>stack = js_pop (stack s), next_string_will_be_key = True\<rparr>
      else if ttype t = TString then
        (if next_string_will_be_key s
         then \<lparr>stack = js_push (stack s) (tvalue t), next_string_will_be_key = False\<rparr>
         else \<lparr>stack = js_pop (stack s), next_string_will_be_key = True\<rparr>)
      else if ttype t = TLiteral \<or> ttype t = TNumber then
        \<lparr>stack = js_pop (stack s), next_string_will_be_key = True\<rparr>
      else s)"

definition path_run :: "token list \<Rightarrow> path_state \<Rightarrow> path_state" where
  "path_run tokens s = fold (\<lambda>t s. path_step s t) tokens s"

definition get_path_in_object :: "token list \<Rightarrow> jvalue list \<times> bool" where
  "get_path_in_object tokens =
     (let s = path_run tokens path_init in
      (filter (\<lambda>f. f \<noteq> list_marker) (stack s), \<not> next_string_will_be_key s))"

record keys_state =
  highlights :: "irange list"
  key_next :: bool

definition keys_init :: keys_state where
  "keys_init = \<lparr>highlights = [], key_next = True\<rparr>"

text \<open>The body of the loop of \<open>getPositionOfKeys\<close>; brackets are not handled.\<close>

definition keys_step :: "keys_state \<Rightarrow> token \<Rightarrow> keys_state" where
  "keys_step s t =
     (if is_punct t ''{'' then s\<lparr>key_next := True\<rparr>
      else if is_punct t ''}'' then s\<lparr>key_next := True\<rparr>
      else if ttype t = TString then
        (if key_next s then \<lparr>highlights = js_push (highlights s) (position t), key_next = False\<rparr>
         else s\<lparr>key_next := True\<rparr>)
      else if ttype t = TLiteral \<or> ttype t = TNumber then s\<lparr>key_next := True\<rparr>
      else s)"

definition keys_run :: "token list \<Rightarrow> keys_state \<Rightarrow> keys_state" where
  "keys_run tokens s = fold (\<lambda>t s. keys_step s t) tokens s"

definition get_position_of_keys :: "token list \<Rightarrow> irange list" where
  "get_position_of_keys tokens = highlights (keys_run tokens keys_init)"

text \<open>Tokens neither machine reacts to: comments, whitespace, \<open>:\<close> and \<open>,\<close>.\<close>

definition path_inert :: "token \<Rightarrow> bool" where
  "path_inert t \<longleftrightarrow> is_trivia t \<or> is_punct t '':'' \<or> is_punct t '',''"

text \<open>The states the loop of \<open>getPathInObject\<close> can reach, from the initial state, one token at a time.\<close>

inductive path_reachable :: "path_state \<Rightarrow> bool" where
  init: "path_reachable path_init"
| step: "path_reachable s \<Longrightarrow> path_reachable (path_step s t)"

subsection \<open>Lemmas\<close>

text \<open>Evaluation rules, for running both machines on concrete tokens.\<close>

lemmas path_eval = get_path_in_object_def path_run_def path_init_def path_step_def list_marker_def
  is_punct_def Let_def js_push_def js_pop_def

lemmas keys_eval = get_position_of_keys_def keys_run_def keys_init_def keys_step_def is_punct_def js_push_def

lemma path_run_Nil [simp]: "path_run [] s = s"
  by (simp add: path_run_def)

lemma path_run_Cons [simp]: "path_run (t # ts) s = path_run ts (path_step s t)"
  by (simp add: path_run_def)

lemma path_run_append: "path_run (xs @ ys) s = path_run ys (path_run xs s)"
  by (simp add: path_run_def)

lemma keys_run_Nil [simp]: "keys_run [] s = s"
  by (simp add: keys_run_def)

lemma keys_run_Cons [simp]: "keys_run (t # ts) s = keys_run ts (keys_step s t)"
  by (simp add: keys_run_def)

lemma path_step_inert: "path_inert t \<Longrightarrow> path_step s t = s"
  by (auto simp: path_inert_def path_step_def is_punct_def is_trivia_def)

lemma keys_step_inert: "path_inert t \<Longrightarrow> keys_step s t = s"
  by (auto simp: path_inert_def keys_step_def is_punct_def is_trivia_def)

lemma path_run_filter_inert:
  "path_run (filter (\<lambda>t. \<not> path_inert t) ts) s = path_run ts s"
  by (induction ts arbitrary: s) (simp_all add: path_step_inert)

lemma keys_run_filter_inert:
  "keys_run (filter (\<lambda>t. \<not> path_inert t) ts) s = keys_run ts s"
  by (induction ts arbitrary: s) (simp_all add: keys_step_inert)

lemma trivia_inert: "is_trivia t \<Longrightarrow> path_inert t"
  by (simp add: path_inert_def)

lemma keys_path_step_flag:
  assumes "\<not> is_punct t ''[''" "\<not> is_punct t '']''" "key_next k = next_string_will_be_key s"
  shows "key_next (keys_step k t) = next_string_will_be_key (path_step s t)"
  using assms by (simp add: keys_step_def path_step_def)

lemma keys_run_append: "keys_run (xs @ ys) k = keys_run ys (keys_run xs k)"
  by (simp add: keys_run_def)

lemma path_step_string:
  "ttype t = TString \<Longrightarrow> path_step s t =
     (if next_string_will_be_key s
      then \<lparr>stack = js_push (stack s) (tvalue t), next_string_will_be_key = False\<rparr>
      else \<lparr>stack = js_pop (stack s), next_string_will_be_key = True\<rparr>)"
  by (simp add: path_step_def is_punct_def)

lemma path_step_open_bracket:
  "is_punct t ''['' \<Longrightarrow> path_step s t = \<lparr>stack = js_push (stack s) list_marker, next_string_will_be_key = False\<rparr>"
  by (simp add: path_step_def is_punct_def)

lemma path_step_array_value:
  assumes "is_punct l ''[''" "ttype x = TString" "is_punct c '',''" "ttype y = TString"
  shows "path_run [l, x, c, y] s = \<lparr>stack = stack s @ [tvalue y], next_string_will_be_key = False\<rparr>"
proof -
  have c: "path_inert c" using assms(3) by (simp add: path_inert_def)
  show ?thesis using assms(1,2,4) c
    by (simp add: path_step_inert path_step_string path_step_open_bracket js_push_def js_pop_def)
qed

subsection \<open>Properties of the path inference\<close>

text \<open>
  C11: comment and whitespace tokens do not influence \<open>getPathInObject\<close>:
  removing all of them, wherever they are, leaves its result unchanged.
\<close>

theorem path_trivia_invariant:
  "get_path_in_object (filter (\<lambda>t. \<not> is_trivia t) ts) = get_path_in_object ts"
proof -
  have "filter (\<lambda>t. \<not> path_inert t) (filter (\<lambda>t. \<not> is_trivia t) ts) = filter (\<lambda>t. \<not> path_inert t) ts"
    by (induction ts) (auto dest: trivia_inert)
  then have "path_run (filter (\<lambda>t. \<not> is_trivia t) ts) s = path_run ts s" for s
    by (metis path_run_filter_inert)
  then show ?thesis by (simp add: get_path_in_object_def)
qed

text \<open>
  C23 (equivalence): as long as no bracket token occurs, \<open>getPositionOfKeys\<close> and
  \<open>getPathInObject\<close> agree on whether the next string is a key: the flag
  \<open>getPathInObject\<close> reports is the negation of \<open>getPositionOfKeys\<close>'s
  \<open>nextStringWillBeKey\<close>.
\<close>

theorem keys_path_agree:
  assumes "list_all (\<lambda>t. \<not> is_punct t ''['' \<and> \<not> is_punct t '']'') ts"
  shows "snd (get_path_in_object ts) = (\<not> key_next (keys_run ts keys_init))"
proof -
  have "key_next k = next_string_will_be_key s \<Longrightarrow>
        key_next (keys_run ts k) = next_string_will_be_key (path_run ts s)" for k s
    using assms by (induction ts arbitrary: k s) (simp_all add: keys_path_step_flag)
  from this [of keys_init path_init] show ?thesis
    by (simp add: get_path_in_object_def keys_init_def path_init_def Let_def)
qed

text \<open>
  C21: \<open>getPositionOfKeys\<close> does not handle brackets (its \<open>TODO\<close>): where a
  value is expected, an array \<open>[x, y]\<close> of two strings makes the first string the
  value and highlights the second as a key.
\<close>

theorem keys_array_second_element_key:
  assumes "\<not> key_next (keys_run ts keys_init)"
    and "is_punct l ''[''" "ttype x = TString" "is_punct c '',''" "ttype y = TString"
  shows "get_position_of_keys (ts @ [l, x, c, y]) = get_position_of_keys ts @ [position y]"
proof -
  have l: "keys_step k l = k" and c: "keys_step k c = k" for k
    using assms(2,4) by (simp_all add: keys_step_def is_punct_def)
  have "keys_step (keys_step k x) y = \<lparr>highlights = highlights k @ [position y], key_next = False\<rparr>"
    if "\<not> key_next k" for k
    using that assms(3,5) by (simp add: keys_step_def is_punct_def js_push_def)
  then show ?thesis
    using assms(1) by (simp add: get_position_of_keys_def keys_run_append l c)
qed

text \<open>
  C26: inside an array the table pops the array marker on the first string value, so
  after \<open>[\<close>, a string, \<open>,\<close> and a second string the second element is on the
  stack as if it were a key, and the reported path gains it.
\<close>

theorem path_array_second_element_key:
  assumes "is_punct l ''[''" "ttype x = TString" "is_punct c '',''" "ttype y = TString"
  shows "get_path_in_object (ts @ [l, x, c, y]) =
           (fst (get_path_in_object ts) @ filter (\<lambda>f. f \<noteq> list_marker) [tvalue y], True)"
  using path_step_array_value [OF assms, of "path_run ts path_init"]
  by (simp add: get_path_in_object_def path_run_append Let_def)

lemma path_run_reachable: "path_reachable s \<Longrightarrow> path_reachable (path_run ts s)"
  by (induction ts arbitrary: s) (simp_all add: path_reachable.step)

text \<open>
  C15 (invariant): in every state the loop reaches, a value is expected only while
  the stack holds the frame it belongs to (the pending key or the array marker),
  so the pop a value performs never meets an empty stack.
\<close>

theorem path_reachable_value_frame:
  "path_reachable s \<Longrightarrow> next_string_will_be_key s \<or> 0 < length (stack s)"
proof (induction rule: path_reachable.induct)
  case init
  then show ?case by (simp add: path_init_def)
next
  case (step s t)
  then show ?case by (auto simp: path_step_def js_push_def)
qed

end
