(* ===== verification/Json_Value.thy ===== *)
theory Json_Value
  imports Ast Lexer_Rules
begin

text \<open>
  What the AST builder of \<open>src/src/json-parse-ast.js\<close> promises, as a refinement.
  The abstract side: JSON values (\<open>json\<close>), and the token stream a value is
  written as (\<open>json_tokens\<close>: no whitespace, keys as string tokens, \<open>,\<close> and
  \<open>:\<close> between members; ranges play no part in building, so every token gets the
  same one). The concrete side: the tree \<open>parseTokens\<close> builds, read back as a value
  through the containers' \<open>extractValues()\<close> in the node-returning form the
  source gives it (\<open>array_values\<close>, \<open>object_values\<close>; a key must be a string
  node). The main lemma, by computation induction over the printer, follows the
  cursor through the recursive descent with the token list split around the
  value; \<open>parse_tokens_refines_json\<close> states the refinement for a whole stream.
\<close>

datatype json =
    JStr jstring
  | JNum jstring
  | JBoolean bool
  | JNul
  | JArr "json list"
  | JObj "(jstring \<times> json) list"

definition no_range :: irange where
  "no_range = \<lparr>startLineNumber = 1, startColumn = 1, endLineNumber = 1, endColumn = 1\<rparr>"

definition mk_tok :: "token_type \<Rightarrow> jstring \<Rightarrow> jvalue \<Rightarrow> token" where
  "mk_tok ty r v = \<lparr>ttype = ty, position = no_range, raw = r, tvalue = v\<rparr>"

definition punct :: "string \<Rightarrow> token" where
  "punct c = mk_tok TPunctuation (js c) (JString (js c))"

definition str_tok :: "jstring \<Rightarrow> token" where
  "str_tok s = mk_tok TString (34 # s @ [34]) (JString s)"

fun json_tokens :: "json \<Rightarrow> token list"
and elems_tokens :: "json list \<Rightarrow> token list"
and members_tokens :: "(jstring \<times> json) list \<Rightarrow> token list" where
  "json_tokens (JStr s) = [str_tok s]"
| "json_tokens (JNum n) = [mk_tok TNumber n (JNumber n)]"
| "json_tokens (JBoolean b) = [mk_tok TLiteral (if b then js ''true'' else js ''false'') (JBool b)]"
| "json_tokens JNul = [mk_tok TLiteral (js ''null'') JNull]"
| "json_tokens (JArr vs) = punct ''['' # elems_tokens vs @ [punct '']'']"
| "json_tokens (JObj ms) = punct ''{'' # members_tokens ms @ [punct ''}'']"
| "elems_tokens [] = []"
| "elems_tokens [v] = json_tokens v"
| "elems_tokens (v # w # vs) = json_tokens v @ punct '','' # elems_tokens (w # vs)"
| "members_tokens [] = []"
| "members_tokens [(k, v)] = str_tok k # punct '':'' # json_tokens v"
| "members_tokens ((k, v) # m # ms) = str_tok k # punct '':'' # json_tokens v @ punct '','' # members_tokens (m # ms)"

fun json_ok :: "json \<Rightarrow> bool" where
  "json_ok (JNum n) = (match_number n = Some (length n))"
| "json_ok (JArr vs) = list_all json_ok vs"
| "json_ok (JObj ms) = list_all (\<lambda>m. json_ok (snd m)) ms"
| "json_ok _ = True"

fun pairs :: "'a list \<Rightarrow> ('a \<times> 'a) list" where
  "pairs (a # b # r) = (a, b) # pairs r"
| "pairs _ = []"

text \<open>\<open>extractValues()\<close> of an array: the value children themselves.\<close>

definition array_values :: "ast list \<Rightarrow> ast list" where
  "array_values cs = map (\<lambda>i. cs ! i) (extract_values_array cs 0)"

text \<open>\<open>extractValues()\<close> of an object: \<open>{key, value}\<close> node pairs, the key \<open>null\<close> when absent.\<close>

definition object_values :: "ast list \<Rightarrow> (ast option \<times> ast) list" where
  "object_values cs = map (\<lambda>(k, v). (map_option (\<lambda>i. cs ! i) k, cs ! v)) (extract_values_object cs 0 True None)"

definition key_string :: "ast \<Rightarrow> jstring option" where
  "key_string n = (case n of Leaf StringLiteral _ (Some (JString s)) _ _ \<Rightarrow> Some s | _ \<Rightarrow> None)"

definition member_json :: "ast option \<Rightarrow> json option \<Rightarrow> (jstring \<times> json) option" where
  "member_json k vj = (case Option.bind k key_string of Some s \<Rightarrow> map_option (Pair s) vj | None \<Rightarrow> None)"

text \<open>The abstraction function from built trees to JSON values.\<close>

function (sequential) ast_json :: "ast \<Rightarrow> json option" where
  "ast_json (Leaf StringLiteral _ (Some (JString s)) _ _) = Some (JStr s)"
| "ast_json (Leaf NumberLiteral _ (Some (JNumber n)) _ _) = Some (JNum n)"
| "ast_json (Leaf LiteralLiteral _ (Some (JBool b)) _ _) = Some (JBoolean b)"
| "ast_json (Leaf LiteralLiteral _ (Some JNull) _ _) = Some JNul"
| "ast_json (Container Array cs _ _) = map_option JArr (those (map ast_json (array_values cs)))"
| "ast_json (Container Object cs _ _) =
     map_option JObj (those (map (\<lambda>(k, v). member_json k (ast_json v)) (object_values cs)))"
| "ast_json _ = None"
  by pat_completeness auto
termination
proof (relation "measure size")
  fix cs :: "ast list" and x rg b
  assume "x \<in> set (array_values cs)"
  then have "x \<in> set cs" by (auto simp: array_values_def extract_values_array_mem)
  then have "size x \<le> size_list size cs" by (rule size_list_estimation') simp
  then show "(x, Container Array cs rg b) \<in> measure size" by simp
next
  fix cs :: "ast list" and kv k v rg b
  assume kv: "kv \<in> set (object_values cs)" "(k, v) = kv"
  then obtain ko i where i: "(ko, i) \<in> set (extract_values_object cs 0 True None)" "v = cs ! i"
    by (auto simp: object_values_def)
  then obtain a where "(a, i) \<in> set (pair_up (extract_values_array cs 0))"
    using extract_values_object_pair_up_gen [of cs] by auto
  from pair_up_mem [OF extract_values_array_sorted this] have "i < length cs"
    by (simp add: extract_values_array_mem)
  with i have "v \<in> set cs" by simp
  then have "size v \<le> size_list size cs" by (rule size_list_estimation') simp
  then show "(v, Container Object cs rg b) \<in> measure size" by simp
qed simp

lemma ast_json_set_parent [simp]: "ast_json (set_parent n) = ast_json n"
  by (induction n rule: ast_json.induct) simp_all

lemma extract_values_array_nth:
  "length ys = k \<Longrightarrow> map (\<lambda>i. (ys @ cs) ! i) (extract_values_array cs k) = filter is_value_node cs"
proof (induction cs arbitrary: ys k)
  case Nil
  then show ?case by simp
next
  case (Cons c cs)
  have "map (\<lambda>i. (ys @ c # cs) ! i) (extract_values_array cs (Suc k)) = filter is_value_node cs"
    using Cons.IH [of "ys @ [c]" "Suc k"] Cons.prems by simp
  with Cons.prems show ?case by (simp add: nth_append)
qed

lemma array_values_filter: "array_values cs = filter is_value_node cs"
  using extract_values_array_nth [of "[]" 0 cs] by (simp add: array_values_def)

lemma map_pair_up: "map (\<lambda>(a, b). (f a, f b)) (pair_up xs) = pairs (map f xs)"
  by (induction xs rule: pair_up.induct) simp_all

lemma object_values_pairs:
  "object_values cs = map (\<lambda>(a, b). (Some a, b)) (pairs (filter is_value_node cs))"
proof -
  have "object_values cs = map (\<lambda>(a, b). (Some a, b)) (map (\<lambda>(a, b). (cs ! a, cs ! b)) (pair_up (extract_values_array cs 0)))"
    using extract_values_object_pair_up_gen [of cs] by (simp add: object_values_def comp_def case_prod_beta)
  also have "\<dots> = map (\<lambda>(a, b). (Some a, b)) (pairs (filter is_value_node cs))"
    using map_pair_up [of "\<lambda>i. cs ! i"] extract_values_array_nth [of "[]" 0 cs] by simp
  finally show ?thesis .
qed

lemma json_tokens_first:
  "json_ok j \<Longrightarrow> \<exists>t rest. json_tokens j = t # rest \<and> raw t \<noteq> js '']'' \<and> raw t \<noteq> js ''}''"
proof (cases j)
  case (JNum n)
  moreover assume "json_ok j"
  ultimately have "n \<noteq> js '']''" "n \<noteq> js ''}''"
    by (auto simp: match_number_def int_part_len_def js_def)
  with JNum show ?thesis by (simp add: mk_tok_def)
qed (simp_all add: str_tok_def mk_tok_def punct_def js_def)

lemma punct_simps [simp]:
  "ttype (punct c) = TPunctuation" "raw (punct c) = js c"
  "ttype (str_tok s) = TString" "raw (str_tok s) = 34 # s @ [34]" "tvalue (str_tok s) = JString s"
  by (simp_all add: punct_def str_tok_def mk_tok_def)

lemma str_tok_not_delim [simp]:
  "raw (str_tok s) \<noteq> js '']''" "raw (str_tok s) \<noteq> js ''}''"
  by (simp_all add: js_def)

lemma children_last_step:
  assumes "parse_tokens_from f ts cur = Inr (c, n)" "cur < length ts" "raw (ts ! cur) \<noteq> cl"
    and "c < length ts" "raw (ts ! c) = cl"
  shows "parse_children (Suc (Suc f)) cl ts cur = Inr (c, [set_parent n])"
proof -
  have p1: "parse_tokens_from (Suc f) ts cur = Inr (c, n)"
    by (rule parse_tokens_from_more_fuel [OF assms(1)]) simp
  have p2: "parse_children (Suc f) cl ts c = Inr (c, [])" using assms(4,5) by simp
  show ?thesis using assms(2,3) p1 p2
    by (subst parse_children.simps) (simp del: parse_children.simps parse_tokens_from.simps)
qed

lemma children_sep_step:
  assumes "parse_tokens_from f1 ts cur = Inr (c1, n)" "cur < length ts" "raw (ts ! cur) \<noteq> cl"
    and "c1 < length ts" "ts ! c1 = punct sep" "sep = '','' \<or> sep = '':''" "js sep \<noteq> cl"
    and "parse_children f2 cl ts (Suc c1) = Inr (c2, ns)"
  shows "parse_children (Suc (Suc (Suc (max f1 f2)))) cl ts cur =
           Inr (c2, set_parent n # set_parent (snd (parse_token ts c1)) # ns)"
proof -
  let ?M = "max f1 f2"
  have p1: "parse_tokens_from (Suc (Suc ?M)) ts cur = Inr (c1, n)"
    by (rule parse_tokens_from_more_fuel [OF assms(1)]) simp
  have p2: "parse_tokens_from (Suc ?M) ts c1 = Inr (parse_token ts c1)"
    using assms(4-6) by (auto simp: parse_token_def)
  have p3: "parse_children (Suc ?M) cl ts (Suc c1) = Inr (c2, ns)"
    by (rule parse_children_more_fuel [OF assms(8)]) simp
  have p4: "parse_children (Suc (Suc ?M)) cl ts c1 = Inr (c2, set_parent (snd (parse_token ts c1)) # ns)"
    using assms(4,5,7) p2 p3
    by (subst parse_children.simps) (simp del: parse_children.simps parse_tokens_from.simps add: parse_token_def)
  show ?thesis using assms(2,3) p1 p4
    by (subst parse_children.simps) (simp del: parse_children.simps parse_tokens_from.simps)
qed

lemma is_value_node_parse_token [simp]: "\<not> is_value_node (snd (parse_token ts i))"
  by (simp add: parse_token_def is_value_node_def)

lemma is_value_node_container [simp]: "is_value_node (Container k cs rg b)"
  by (simp add: is_value_node_def)

lemma ast_json_make_array:
  "ast_json (make_array ts cur c ns) = map_option JArr (those (map ast_json (filter is_value_node ns)))"
  by (simp add: make_array_def array_values_filter)

lemma ast_json_make_object:
  "ast_json (make_object ts cur c ns) =
     map_option JObj (those (map (\<lambda>(k, v). member_json (Some k) (ast_json v)) (pairs (filter is_value_node ns))))"
  by (simp add: make_object_def object_values_pairs comp_def split_def)

lemma container_step:
  assumes "parse_children f (js cl) ts (Suc cur) = Inr (c, ns)" "cur < length ts"
    and "ts ! cur = punct op" "(op, cl) = (''['', '']'') \<or> (op, cl) = (''{'', ''}'')"
  shows "parse_tokens_from (Suc f) ts cur =
           Inr (Suc c, if op = ''['' then make_array ts cur c ns else make_object ts cur c ns)"
  using assms by (auto simp del: parse_children.simps)

lemma string_step:
  "cur < length ts \<Longrightarrow> ts ! cur = str_tok k \<Longrightarrow>
   \<exists>l. parse_tokens_from (Suc 0) ts cur = Inr (Suc cur, l) \<and> key_string (set_parent l) = Some k \<and>
       is_value_node l"
  by (simp add: parse_string_def key_string_def is_value_node_def)

lemma parse_json_tokens:
  "json_ok j \<Longrightarrow> \<exists>f n.
     parse_tokens_from f (pre @ json_tokens j @ post) (length pre) = Inr (length pre + length (json_tokens j), n) \<and>
     ast_json n = Some j \<and> is_value_node n"
  "list_all json_ok vs \<Longrightarrow> \<exists>f ns.
     parse_children f (js '']'') (pre @ elems_tokens vs @ punct '']'' # post) (length pre) =
       Inr (length pre + length (elems_tokens vs), ns) \<and>
     those (map ast_json (filter is_value_node ns)) = Some vs"
  "list_all (\<lambda>m. json_ok (snd m)) ms \<Longrightarrow> \<exists>f ns.
     parse_children f (js ''}'') (pre @ members_tokens ms @ punct ''}'' # post) (length pre) =
       Inr (length pre + length (members_tokens ms), ns) \<and>
     those (map (\<lambda>(k, v). member_json (Some k) (ast_json v)) (pairs (filter is_value_node ns))) = Some ms"
proof (induction j and vs and ms arbitrary: pre post and pre post and pre post
    rule: json_tokens_elems_tokens_members_tokens.induct)
  case (1 s)
  then show ?case by (simp add: parse_string_def nth_append is_value_node_def exI [of _ "Suc 0"])
next
  case (2 n)
  then show ?case by (simp add: parse_number_def nth_append is_value_node_def mk_tok_def exI [of _ "Suc 0"])
next
  case (3 b)
  then show ?case by (simp add: parse_literal_def nth_append is_value_node_def mk_tok_def exI [of _ "Suc 0"])
next
  case 4
  then show ?case by (simp add: parse_literal_def nth_append is_value_node_def mk_tok_def exI [of _ "Suc 0"])
next
  case (5 vs)
  let ?ts = "pre @ json_tokens (JArr vs) @ post"
  let ?c = "Suc (length pre + length (elems_tokens vs))"
  from "5.prems" have ok: "list_all json_ok vs" by simp
  from "5.IH" [OF ok, of "pre @ [punct ''['']" post] obtain f ns where
    pc: "parse_children f (js '']'') ?ts (Suc (length pre)) = Inr (?c, ns)"
    and ab: "those (map ast_json (filter is_value_node ns)) = Some vs" by auto
  have p: "parse_tokens_from (Suc f) ?ts (length pre) =
             Inr (length pre + length (json_tokens (JArr vs)), make_array ?ts (length pre) ?c ns)"
    using container_step [OF pc, of "''[''"] by (simp add: nth_append)
  have a: "ast_json (make_array ?ts (length pre) ?c ns) = Some (JArr vs)" by (simp add: ast_json_make_array ab)
  have v: "is_value_node (make_array ?ts (length pre) ?c ns)" by (simp add: make_array_def)
  show ?case using p a v by blast
next
  case (6 ms)
  let ?ts = "pre @ json_tokens (JObj ms) @ post"
  let ?c = "Suc (length pre + length (members_tokens ms))"
  from "6.prems" have ok: "list_all (\<lambda>m. json_ok (snd m)) ms" by simp
  from "6.IH" [OF ok, of "pre @ [punct ''{'']" post] obtain f ns where
    pc: "parse_children f (js ''}'') ?ts (Suc (length pre)) = Inr (?c, ns)"
    and ab: "those (map (\<lambda>(k, v). member_json (Some k) (ast_json v)) (pairs (filter is_value_node ns))) = Some ms" by auto
  have p: "parse_tokens_from (Suc f) ?ts (length pre) =
             Inr (length pre + length (json_tokens (JObj ms)), make_object ?ts (length pre) ?c ns)"
    using container_step [OF pc, of "''{''"] by (simp add: nth_append)
  have a: "ast_json (make_object ?ts (length pre) ?c ns) = Some (JObj ms)" by (simp add: ast_json_make_object ab)
  have v: "is_value_node (make_object ?ts (length pre) ?c ns)" by (simp add: make_object_def)
  show ?case using p a v by blast
next
  case 7
  then show ?case by (simp add: nth_append exI [of _ "Suc 0"])
next
  case (8 v)
  let ?ts = "pre @ json_tokens v @ punct '']'' # post"
  let ?c = "length pre + length (json_tokens v)"
  from "8.prems" have ok: "json_ok v" by simp
  from "8.IH" [OF ok, of pre "punct '']'' # post"] obtain f n where
    p: "parse_tokens_from f ?ts (length pre) = Inr (?c, n)" and a: "ast_json n = Some v" "is_value_node n"
    by auto
  from json_tokens_first [OF ok] obtain t rest where tr: "json_tokens v = t # rest" "raw t \<noteq> js '']''" by auto
  have "parse_children (Suc (Suc f)) (js '']'') ?ts (length pre) = Inr (?c, [set_parent n])"
    by (rule children_last_step [OF p]) (use tr in \<open>simp_all add: nth_append\<close>)
  then show ?case using a
    by (intro exI [of _ "Suc (Suc f)"] exI [of _ "[set_parent n]"])
       (simp del: parse_children.simps parse_tokens_from.simps)
next
  case (9 v w vs)
  let ?ts = "pre @ json_tokens v @ punct '','' # elems_tokens (w # vs) @ punct '']'' # post"
  let ?c1 = "length pre + length (json_tokens v)"
  from "9.prems" have ok: "json_ok v" "list_all json_ok (w # vs)" by simp_all
  from "9.IH"(1) [OF ok(1), of pre "punct '','' # elems_tokens (w # vs) @ punct '']'' # post"] obtain f1 n where
    p1: "parse_tokens_from f1 ?ts (length pre) = Inr (?c1, n)" and a: "ast_json n = Some v" "is_value_node n"
    by auto
  from "9.IH"(2) [OF ok(2), of "pre @ json_tokens v @ [punct '','']" post] obtain f2 ns where
    p2: "parse_children f2 (js '']'') ?ts (Suc ?c1) = Inr (Suc ?c1 + length (elems_tokens (w # vs)), ns)"
    and b: "those (map ast_json (filter is_value_node ns)) = Some (w # vs)" by auto
  from json_tokens_first [OF ok(1)] obtain t rest where tr: "json_tokens v = t # rest" "raw t \<noteq> js '']''" by auto
  have "parse_children (Suc (Suc (Suc (max f1 f2)))) (js '']'') ?ts (length pre) =
          Inr (Suc ?c1 + length (elems_tokens (w # vs)), set_parent n # set_parent (snd (parse_token ?ts ?c1)) # ns)"
    by (rule children_sep_step [OF p1 _ _ _ _ _ _ p2, where sep="'',''"]) (use tr in \<open>simp_all add: nth_append\<close>)
  then show ?case using a b
    by (intro exI [of _ "Suc (Suc (Suc (max f1 f2)))"]
        exI [of _ "set_parent n # set_parent (snd (parse_token ?ts ?c1)) # ns"])
       (simp del: parse_children.simps parse_tokens_from.simps)
next
  case 10
  then show ?case by (simp add: nth_append exI [of _ "Suc 0"])
next
  case (11 k v)
  let ?ts = "pre @ str_tok k # punct '':'' # json_tokens v @ punct ''}'' # post"
  let ?c = "Suc (Suc (length pre)) + length (json_tokens v)"
  from "11.prems" have ok: "json_ok v" by simp
  from "11.IH" [OF ok, of "pre @ [str_tok k, punct '':'']" "punct ''}'' # post"] obtain f n where
    p: "parse_tokens_from f ?ts (Suc (Suc (length pre))) = Inr (?c, n)"
    and a: "ast_json n = Some v" "is_value_node n" by auto
  from json_tokens_first [OF ok] obtain t rest where tr: "json_tokens v = t # rest" "raw t \<noteq> js ''}''" by auto
  have pv: "parse_children (Suc (Suc f)) (js ''}'') ?ts (Suc (Suc (length pre))) = Inr (?c, [set_parent n])"
    by (rule children_last_step [OF p]) (use tr in \<open>simp_all add: nth_append\<close>)
  obtain l where pl: "parse_tokens_from (Suc 0) ?ts (length pre) = Inr (Suc (length pre), l)"
    and l: "key_string (set_parent l) = Some k" "is_value_node l"
    using string_step [of "length pre" ?ts k] by auto
  have "parse_children (Suc (Suc (Suc (max (Suc 0) (Suc (Suc f)))))) (js ''}'') ?ts (length pre) =
          Inr (?c, set_parent l # set_parent (snd (parse_token ?ts (Suc (length pre)))) # [set_parent n])"
    by (rule children_sep_step [OF pl _ _ _ _ _ _ pv, where sep="'':''"]) (simp_all add: nth_append js_def)
  then show ?case using a l
    by (intro exI [of _ "Suc (Suc (Suc (max (Suc 0) (Suc (Suc f)))))"]
        exI [of _ "set_parent l # set_parent (snd (parse_token ?ts (Suc (length pre)))) # [set_parent n]"])
       (simp del: parse_children.simps parse_tokens_from.simps add: member_json_def)
next
  case (12 k v m ms)
  let ?ts = "pre @ str_tok k # punct '':'' # json_tokens v @ punct '','' # members_tokens (m # ms) @ punct ''}'' # post"
  let ?c1 = "Suc (Suc (length pre)) + length (json_tokens v)"
  let ?c2 = "Suc ?c1 + length (members_tokens (m # ms))"
  from "12.prems" have ok: "json_ok v" "list_all (\<lambda>m. json_ok (snd m)) (m # ms)" by simp_all
  from "12.IH"(1) [OF ok(1), of "pre @ [str_tok k, punct '':'']" "punct '','' # members_tokens (m # ms) @ punct ''}'' # post"]
  obtain f1 n where p1: "parse_tokens_from f1 ?ts (Suc (Suc (length pre))) = Inr (?c1, n)"
    and a: "ast_json n = Some v" "is_value_node n" by auto
  from "12.IH"(2) [OF ok(2), of "pre @ [str_tok k, punct '':''] @ json_tokens v @ [punct '','']" post]
  obtain f2 ns where p2: "parse_children f2 (js ''}'') ?ts (Suc ?c1) = Inr (?c2, ns)"
    and b: "those (map (\<lambda>(k, v). member_json (Some k) (ast_json v)) (pairs (filter is_value_node ns))) = Some (m # ms)"
    by auto
  from json_tokens_first [OF ok(1)] obtain t rest where tr: "json_tokens v = t # rest" "raw t \<noteq> js ''}''" by auto
  have pv: "parse_children (Suc (Suc (Suc (max f1 f2)))) (js ''}'') ?ts (Suc (Suc (length pre))) =
              Inr (?c2, set_parent n # set_parent (snd (parse_token ?ts ?c1)) # ns)"
    by (rule children_sep_step [OF p1 _ _ _ _ _ _ p2, where sep="'',''"]) (use tr in \<open>simp_all add: nth_append\<close>)
  obtain l where pl: "parse_tokens_from (Suc 0) ?ts (length pre) = Inr (Suc (length pre), l)"
    and l: "key_string (set_parent l) = Some k" "is_value_node l"
    using string_step [of "length pre" ?ts k] by auto
  let ?F = "Suc (Suc (Suc (max (Suc 0) (Suc (Suc (Suc (max f1 f2)))))))"
  let ?ns = "set_parent l # set_parent (snd (parse_token ?ts (Suc (length pre)))) #
             set_parent n # set_parent (snd (parse_token ?ts ?c1)) # ns"
  have "parse_children ?F (js ''}'') ?ts (length pre) = Inr (?c2, ?ns)"
    by (rule children_sep_step [OF pl _ _ _ _ _ _ pv, where sep="'':''"]) (simp_all add: nth_append js_def)
  then show ?case using a l b
    by (intro exI [of _ ?F] exI [of _ ?ns])
       (simp del: parse_children.simps parse_tokens_from.simps add: member_json_def)
qed

text \<open>
  C2 (refinement): the builder is a parser for JSON token streams. For every JSON
  value whose numbers are numerals of the tokenizer's number rule, \<open>parseTokens\<close> on
  the value's tokens returns a tree that the abstraction through the containers'
  \<open>extractValues\<close> views maps back to the value.
\<close>

theorem parse_tokens_refines_json:
  assumes "json_ok j"
  shows "\<exists>n. parse_tokens (json_tokens j) = Inr n \<and> ast_json n = Some j"
proof -
  from parse_json_tokens(1) [OF assms, of "[]" "[]"] obtain f n where
    "parse_tokens_from f (json_tokens j) 0 = Inr (length (json_tokens j), n)" "ast_json n = Some j"
    by auto
  with parse_tokens_from_any_fuel show ?thesis by blast
qed

end
