(* ===== verification/Pipeline.thy ===== *)
theory Pipeline
  imports Tokenizer Json_Value
begin

text \<open>
  The two exported functions of \<open>src/src/json-parse-ast.js\<close> composed: the text a
  JSON value prints to (\<open>json_text\<close>: its token stream of \<open>Json_Value\<close>, with no
  whitespace) is tokenized by \<open>tokenize\<close> into tokens that differ from the printed
  ones only in their ranges, and \<open>parseTokens\<close> on those tokens builds a tree that
  reads back as the value, with the printed text as its \<open>raw\<close>. Values are
  printable when their strings need no escape (no quote, no backslash, no control
  character) and their numerals are whole matches of the number rule.

  Ranges are erased (\<open>erase\<close>, \<open>erase_ast\<close>) to compare the tokenizer's output with
  the printed tokens: the builder copies ranges and never reads them
  (\<open>parse_erase\<close>), and neither the value nor the raw text of a tree depends on
  them. \<open>relexes\<close> says that a token stream is what the scanning loop produces
  from its concatenated text; it holds for a printed value because every token
  starts with a character that only its own rule accepts and, for a numeral,
  because a value is followed only by \<open>,\<close>, \<open>]\<close>, \<open>}\<close> or the end of the text,
  where the number rule stops (\<open>match_number_append\<close>).
\<close>

subsection \<open>Ranges erased\<close>

definition erase :: "token \<Rightarrow> token" where
  "erase t = t\<lparr>position := no_range\<rparr>"

fun erase_ast :: "ast \<Rightarrow> ast" where
  "erase_ast (Leaf k r v p b) = Leaf k r v no_range b"
| "erase_ast (Container k cs p b) = Container k (map erase_ast cs) no_range b"

subsection \<open>Printable values and their text\<close>

text \<open>A string that \<open>JSON.parse\<close> reads back unchanged between two quotes.\<close>

definition plain :: "jstring \<Rightarrow> bool" where
  "plain s \<longleftrightarrow> list_all (\<lambda>c. c \<noteq> 34 \<and> c \<noteq> 92 \<and> 32 \<le> c) s"

text \<open>What may follow a value in a printed stream: \<open>,\<close>, \<open>]\<close>, \<open>}\<close> or nothing.\<close>

definition value_follow :: "jstring \<Rightarrow> bool" where
  "value_follow r \<longleftrightarrow> (case r of [] \<Rightarrow> True | d # _ \<Rightarrow> d \<in> {44, 93, 125})"

fun printable :: "json \<Rightarrow> bool" where
  "printable (JStr s) = plain s"
| "printable (JNum n) = (match_number n = Some (length n))"
| "printable (JArr vs) = list_all printable vs"
| "printable (JObj ms) = list_all (\<lambda>m. plain (fst m) \<and> printable (snd m)) ms"
| "printable _ = True"

definition json_text :: "json \<Rightarrow> jstring" where
  "json_text j = concat (map raw (json_tokens j))"

text \<open>
  A token list is what the \<open>tokenize\<close> loop produces from its concatenated raw
  texts: at each token the first matching rule is the one that creates it, with
  exactly its raw text, whatever range it is given.
\<close>

fun relexes :: "token list \<Rightarrow> bool" where
  "relexes [] = True"
| "relexes (t # ts) =
     ((\<exists>c. match_token (raw t @ concat (map raw ts)) = Some (c, length (raw t)) \<and>
          (\<forall>p. c (raw t) p = Inr (t\<lparr>position := p\<rparr>))) \<and>
      raw t \<noteq> [] \<and> relexes ts)"

subsection \<open>The builder does not read ranges\<close>

lemma erase_simps [simp]:
  "ttype (erase t) = ttype t" "raw (erase t) = raw t" "tvalue (erase t) = tvalue t"
  "position (erase t) = no_range"
  by (simp_all add: erase_def)

lemma span_range_erase [simp]:
  "cur < length ts \<Longrightarrow> c < length ts \<Longrightarrow> span_range (map erase ts) cur c = no_range"
  by (simp add: span_range_def no_range_def)

lemma erase_set_parent [simp]: "erase_ast (set_parent n) = set_parent (erase_ast n)"
  by (cases n) simp_all

lemma parse_erase:
  "parse_tokens_from f (map erase ts) cur = map_sum id (\<lambda>(c, n). (c, erase_ast n)) (parse_tokens_from f ts cur)"
  "parse_children f cl (map erase ts) cur = map_sum id (\<lambda>(c, ns). (c, map erase_ast ns)) (parse_children f cl ts cur)"
proof (induction f ts cur and f cl ts cur rule: parse_tokens_from_parse_children.induct)
  case (2 fuel tokens current)
  show ?case
  proof (cases "length tokens \<le> current")
    case False
    then show ?thesis
      using "2.IH"
      by (auto simp: leaf_parsers make_object_def make_array_def parse_token_def
          split: token_type.splits sum.splits prod.splits)
         (auto dest!: parse_progress(2))
  qed simp
next
  case (4 fuel close tokens cur)
  show ?case
  proof (cases "length tokens \<le> cur")
    case False
    then show ?thesis
      using "4.IH"
      by (auto split: sum.splits prod.splits)
  qed simp
qed simp_all

lemma is_value_node_erase [simp]: "is_value_node (erase_ast n) = is_value_node n"
  by (cases n) (simp_all add: is_value_node_def)

lemma key_string_erase [simp]: "key_string (erase_ast n) = key_string n"
  by (cases n) (simp_all add: key_string_def)

lemma pairs_map: "pairs (map f xs) = map (\<lambda>(a, b). (f a, f b)) (pairs xs)"
  by (induction xs rule: pairs.induct) simp_all

lemma array_values_erase: "array_values (map erase_ast cs) = map erase_ast (array_values cs)"
  by (simp add: array_values_filter filter_map comp_def)

lemma object_values_erase:
  "object_values (map erase_ast cs) = map (\<lambda>(k, v). (map_option erase_ast k, erase_ast v)) (object_values cs)"
  by (simp add: object_values_pairs filter_map comp_def pairs_map case_prod_beta)

lemma member_json_erase: "member_json (map_option erase_ast k) vj = member_json k vj"
  by (cases k) (simp_all add: member_json_def)

lemma ast_json_erase [simp]: "ast_json (erase_ast n) = ast_json n"
proof (induction n rule: ast_json.induct)
  case (5 cs rg b)
  then show ?case by (simp add: array_values_erase comp_def cong: map_cong)
next
  case (6 cs rg b)
  have "\<And>x. x \<in> set (object_values cs) \<Longrightarrow> ast_json (erase_ast (snd x)) = ast_json (snd x)"
    using "6.IH" by (metis prod.collapse)
  then show ?case
    by (simp add: object_values_erase comp_def case_prod_beta member_json_erase cong: map_cong)
qed simp_all

lemma ast_raw_erase [simp]: "ast_raw (erase_ast n) = ast_raw n"
  by (induction n rule: ast_raw.induct) (simp_all add: comp_def cong: map_cong)

subsection \<open>The number rule stops at a delimiter\<close>

lemma digits_len_append_stop: "digits_len r = 0 \<Longrightarrow> digits_len (a @ r) = digits_len a"
  by (induction a) (auto simp: digits_len_def)

lemma value_follow_stops:
  "value_follow r \<Longrightarrow> digits_len r = 0 \<and> frac_len r = 0 \<and> exp_len r = 0 \<and> int_part_len r = None"
  by (cases r) (auto simp: value_follow_def digits_len_def is_digit_def frac_len_def exp_len_def int_part_len_def)

lemma int_part_len_append: "value_follow r \<Longrightarrow> int_part_len (a @ r) = int_part_len a"
proof (cases a)
  case Nil
  then show "value_follow r \<Longrightarrow> ?thesis" by (simp add: value_follow_stops, simp add: int_part_len_def)
qed (auto simp: int_part_len_def value_follow_stops digits_len_append_stop)

lemma frac_len_append: "value_follow r \<Longrightarrow> frac_len (a @ r) = frac_len a"
proof (cases a)
  case Nil
  then show "value_follow r \<Longrightarrow> ?thesis" by (simp add: value_follow_stops, simp add: frac_len_def)
qed (auto simp: frac_len_def value_follow_stops digits_len_append_stop)

lemma exp_len_append: "value_follow r \<Longrightarrow> exp_len (a @ r) = exp_len a"
proof (cases a)
  case (Cons c cs)
  assume f: "value_follow r"
  show ?thesis
  proof (cases cs)
    case Nil
    with f Cons show ?thesis
      by (cases r) (auto simp: exp_len_def value_follow_def digits_len_def is_digit_def Let_def)
  next
    case (Cons d ds)
    have "digits_len (d # ds @ r) = digits_len (d # ds)" "digits_len (ds @ r) = digits_len ds"
      using f digits_len_append_stop [of r "d # ds"] digits_len_append_stop [of r ds]
      by (simp_all add: value_follow_stops)
    with f Cons \<open>a = c # cs\<close> show ?thesis
      by (auto simp: exp_len_def Let_def)
  qed
qed (simp add: value_follow_stops, simp add: exp_len_def)

lemma number_tail_append:
  assumes f: "value_follow r" and i: "int_part_len a = Some i"
  shows "frac_len (drop i (a @ r)) = frac_len (drop i a) \<and>
         exp_len (drop (i + frac_len (drop i a)) (a @ r)) = exp_len (drop (i + frac_len (drop i a)) a)"
proof -
  have "i \<le> length a" using int_part_len_bound [OF i] by simp
  moreover have "frac_len (drop i a) \<le> length (drop i a)" by (rule frac_len_bound)
  ultimately show ?thesis using f by (simp add: frac_len_append exp_len_append)
qed

lemma match_number_split:
  "match_number s =
     (let a = drop (if take 1 s = [45] then 1 else 0) s in
      case int_part_len a of
        None \<Rightarrow> None
      | Some i \<Rightarrow> Some ((if take 1 s = [45] then 1 else 0) + i + frac_len (drop i a) +
                        exp_len (drop (i + frac_len (drop i a)) a)))"
  by (simp add: match_number_def Let_def ac_simps split: option.split)

lemma match_number_append: "value_follow r \<Longrightarrow> n \<noteq> [] \<Longrightarrow> match_number (n @ r) = match_number n"
proof -
  assume f: "value_follow r" and n: "n \<noteq> []"
  define sg :: nat where "sg = (if take 1 n = [45] then 1 else 0)"
  have t1: "take 1 (n @ r) = take 1 n" using n by (cases n) simp_all
  have "sg \<le> length n" using n by (simp add: sg_def Suc_leI)
  then have d: "drop sg (n @ r) = drop sg n @ r" by simp
  show ?thesis
  proof (cases "int_part_len (drop sg n)")
    case None
    with int_part_len_append [OF f, of "drop sg n"] show ?thesis
      by (simp only: match_number_split t1 sg_def [symmetric] d Let_def option.case)
  next
    case (Some i)
    with int_part_len_append [OF f, of "drop sg n"] number_tail_append [OF f Some] show ?thesis
      by (simp only: match_number_split t1 sg_def [symmetric] d Let_def option.case)
  qed
qed


subsection \<open>Printed tokens re-lex to themselves\<close>

lemma match_number_head: "match_number (c # cs) = Some k \<Longrightarrow> c = 45 \<or> 48 \<le> c \<and> c \<le> 57"
  by (auto simp: match_number_def int_part_len_def split: if_splits option.splits)

lemma match_token_skip:
  "x \<noteq> 47 \<Longrightarrow> \<not> is_js_space x \<Longrightarrow> x \<noteq> 34 \<Longrightarrow>
   match_token (x # r) = first_match (drop 4 token_types) (x # r)"
  by (simp add: match_token_def token_types_def match_inline_comment_def
      match_multiline_comment_def match_whitespace_def match_string_def js_def)

lemma relexes_punct:
  "c \<in> {''{'', ''}'', ''['', '']'', '':'', '',''} \<Longrightarrow> relexes (punct c # ts) = relexes ts"
  by (auto simp: punct_def mk_tok_def js_def match_token_skip is_js_space_def token_types_def
      match_literal_def match_number_def int_part_len_def match_punctuation_def create_punctuation_def)

lemma relexes_literal:
  "r \<in> {js ''true'', js ''false'', js ''null''} \<Longrightarrow>
   v = (if r = js ''null'' then JNull else JBool (r = js ''true'')) \<Longrightarrow>
   relexes (mk_tok TLiteral r v # ts) = relexes ts"
  by (auto simp: mk_tok_def js_def match_token_skip is_js_space_def token_types_def
      match_literal_def create_literal_def)

lemma string_body_plain_append:
  "list_all (\<lambda>c. c \<noteq> 34 \<and> c \<noteq> 92) b \<Longrightarrow> string_body (b @ 34 # r) = Some (Suc (length b))"
  by (induction b) auto

lemma relexes_string: "plain s \<Longrightarrow> relexes (str_tok s # ts) = relexes ts"
proof -
  assume p: "plain s"
  then have b: "string_body (s @ 34 # concat (map raw ts)) = Some (Suc (length s))"
    by (intro string_body_plain_append) (simp add: plain_def list_all_iff)
  have u: "json_unescape s = Some s"
    using p json_unescape_plain [of s] by (simp add: plain_def list_all_iff)
  show ?thesis
    using b u by (simp add: str_tok_def mk_tok_def match_token_def token_types_def
        match_inline_comment_def match_multiline_comment_def match_whitespace_def is_js_space_def
        match_string_def create_string_def json_parse_string_def js_def)
qed

lemma relexes_number:
  assumes n: "match_number n = Some (length n)" and f: "value_follow (concat (map raw ts))"
  shows "relexes (mk_tok TNumber n (JNumber n) # ts) = relexes ts"
proof -
  obtain c cs where cs: "n = c # cs"
    using match_number_bound [OF n] by (cases n) auto
  then have c: "c = 45 \<or> 48 \<le> c \<and> c \<le> 57" using n match_number_head by blast
  have "match_number (n @ concat (map raw ts)) = Some (length n)"
  proof -
    have "n \<noteq> []" using cs by simp
    from match_number_append [OF f this] n show ?thesis by simp
  qed
  with c cs show ?thesis
    by (auto simp: mk_tok_def js_def match_token_skip is_js_space_def token_types_def
        match_literal_def create_number_def)
qed


lemma raw_punct [simp]: "raw (punct c) = js c"
  by (simp add: punct_def mk_tok_def)

lemma value_follow_delims [simp]:
  "value_follow (js '','' @ r)" "value_follow (js '']'' @ r)" "value_follow (js ''}'' @ r)"
  by (simp_all add: value_follow_def js_def)

lemma relexes_json_tokens:
  "printable j \<Longrightarrow> relexes ts \<Longrightarrow> value_follow (concat (map raw ts)) \<Longrightarrow> relexes (json_tokens j @ ts)"
  "list_all printable vs \<Longrightarrow> relexes ts \<Longrightarrow> value_follow (concat (map raw ts)) \<Longrightarrow>
   relexes (elems_tokens vs @ ts)"
  "list_all (\<lambda>m. plain (fst m) \<and> printable (snd m)) ms \<Longrightarrow> relexes ts \<Longrightarrow>
   value_follow (concat (map raw ts)) \<Longrightarrow> relexes (members_tokens ms @ ts)"
  by (induction j and vs and ms arbitrary: ts and ts and ts rule: json_tokens_elems_tokens_members_tokens.induct)
    (simp_all add: relexes_punct relexes_string relexes_literal relexes_number del: relexes.simps(2))

subsection \<open>The scanning loop over a printed text\<close>

lemma erase_position_update [simp]: "erase (t\<lparr>position := p\<rparr>) = erase t"
  by (simp add: erase_def)

lemma tokenize_loop_relexes:
  "relexes ts \<Longrightarrow> drop i json = concat (map raw ts) \<Longrightarrow>
   \<exists>ts'. tokenize_loop json i pos acc = Inr (acc @ ts') \<and> map erase ts' = map erase ts"
proof (induction ts arbitrary: i pos acc)
  case Nil
  then have "\<not> i < length json" by simp
  then show ?case by (subst tokenize_loop.simps) simp
next
  case (Cons t ts)
  from Cons.prems(1) obtain c where m: "match_token (raw t @ concat (map raw ts)) = Some (c, length (raw t))"
    and cr: "\<And>p. c (raw t) p = Inr (t\<lparr>position := p\<rparr>)" and ne: "raw t \<noteq> []" and r: "relexes ts"
    by auto
  have d: "drop i json = raw t @ concat (map raw ts)" using Cons.prems(2) by simp
  then have lt: "i < length json" using ne by (metis drop_all list.size(3) Nil_is_append_conv not_le_imp_less)
  have tk: "take (length (raw t)) (drop i json) = raw t" using d by simp
  have "drop (length (raw t)) (drop i json) = concat (map raw ts)" using d by simp
  then have d2: "drop (i + length (raw t)) json = concat (map raw ts)" by (simp add: add.commute)
  define p' where "p' = advance pos (raw t)"
  define t' where "t' = t\<lparr>position := token_range pos p'\<rparr>"
  obtain ts' where ts': "tokenize_loop json (i + length (raw t)) p' (acc @ [t']) = Inr ((acc @ [t']) @ ts')"
    "map erase ts' = map erase ts"
    using Cons.IH [OF r d2] by blast
  have "tokenize_loop json i pos acc = tokenize_loop json (i + length (raw t)) p' (acc @ [t'])"
    by (subst tokenize_loop.simps) (simp add: lt d m tk cr Let_def p'_def t'_def)
  with ts'(1) have "tokenize_loop json i pos acc = Inr (acc @ t' # ts')"
    by (simp only: append_assoc append.simps)
  with ts'(2) show ?case
    by (intro exI [of _ "t' # ts'"]) (simp add: t'_def)
qed

lemma erase_mk_tok [simp]: "erase (mk_tok ty r v) = mk_tok ty r v"
  by (simp add: erase_def mk_tok_def)

lemma erase_json_tokens:
  "map erase (json_tokens j) = json_tokens j"
  "map erase (elems_tokens vs) = elems_tokens vs"
  "map erase (members_tokens ms) = members_tokens ms"
  by (induction j and vs and ms rule: json_tokens_elems_tokens_members_tokens.induct)
    (simp_all add: punct_def str_tok_def)

lemma printable_json_ok: "printable j \<Longrightarrow> json_ok j"
  by (induction j rule: printable.induct) (auto simp: list_all_iff)

subsection \<open>Print, tokenize, parse\<close>

text \<open>
  C9: for every printable JSON value, \<open>tokenize\<close> succeeds on its printed text and
  returns the printed tokens up to their ranges, \<open>parseTokens\<close> succeeds on them,
  and the tree it returns reads back (through \<open>extractValues\<close>) as the value and
  has the printed text as its \<open>raw\<close>.
\<close>

theorem print_tokenize_parse_roundtrip:
  assumes "printable j"
  shows "\<exists>ts n. tokenize (json_text j) = Inr ts \<and> map erase ts = json_tokens j \<and>
     parse_tokens ts = Inr n \<and> ast_json n = Some j \<and> ast_raw n = json_text j"
proof -
  have "relexes (json_tokens j)"
    using relexes_json_tokens(1) [OF assms, of "[]"] by (simp add: value_follow_def)
  from tokenize_loop_relexes [OF this, of 0 "json_text j" start_pos "[]"] obtain ts where
    tok: "tokenize (json_text j) = Inr ts" and er: "map erase ts = json_tokens j"
    by (auto simp: tokenize_def json_text_def erase_json_tokens)
  from parse_json_tokens(1) [OF printable_json_ok [OF assms], of "[]" "[]"] obtain f n0 where
    p0: "parse_tokens_from f (json_tokens j) 0 = Inr (length (json_tokens j), n0)" and
    j0: "ast_json n0 = Some j"
    by auto
  from p0 parse_erase(1) [of f ts 0] er obtain n where
    p: "parse_tokens_from f ts 0 = Inr (length (json_tokens j), n)" and n: "erase_ast n = n0"
    by (cases "parse_tokens_from f ts 0") auto
  have "ast_raw n0 = json_text j"
    using parse_progress(1) [OF p0] by (simp add: json_text_def)
  with tok er parse_tokens_from_any_fuel [OF p] j0 n show ?thesis
    by (metis ast_json_erase ast_raw_erase)
qed

theorem print_tokenize_parse_roundtrip_witness:
  "printable (JObj [(js ''a'', JArr [JNum (js ''-1.5e3''), JNul, JStr (js ''x y'')]), (js ''b'', JBoolean False)]) \<and>
   (\<exists>ts n. tokenize (json_text (JObj [(js ''a'', JArr [JNum (js ''-1.5e3''), JNul, JStr (js ''x y'')]), (js ''b'', JBoolean False)])) = Inr ts \<and>
      parse_tokens ts = Inr n \<and>
      ast_json n = Some (JObj [(js ''a'', JArr [JNum (js ''-1.5e3''), JNul, JStr (js ''x y'')]), (js ''b'', JBoolean False)]) \<and>
      ast_raw n = js ''{'' @ [34] @ js ''a'' @ [34] @ js '':[-1.5e3,null,'' @ [34] @ js ''x y'' @ [34] @
        js ''],'' @ [34] @ js ''b'' @ [34] @ js '':false}'')"
proof -
  have p: "printable (JObj [(js ''a'', JArr [JNum (js ''-1.5e3''), JNul, JStr (js ''x y'')]), (js ''b'', JBoolean False)])"
    by (simp add: plain_def match_number_def int_part_len_def frac_len_def exp_len_def digits_len_def
        is_digit_def js_def)
  have t: "json_text (JObj [(js ''a'', JArr [JNum (js ''-1.5e3''), JNul, JStr (js ''x y'')]), (js ''b'', JBoolean False)]) =
      js ''{'' @ [34] @ js ''a'' @ [34] @ js '':[-1.5e3,null,'' @ [34] @ js ''x y'' @ [34] @
        js ''],'' @ [34] @ js ''b'' @ [34] @ js '':false}''"
    by (simp add: json_text_def punct_def str_tok_def mk_tok_def js_def)
  show ?thesis using print_tokenize_parse_roundtrip [OF p] p unfolding t by blast
qed

end
