(* ===== verification/Completion.thy ===== *)
theory Completion
  imports Pipeline PathInference
begin

text \<open>
  The use the documentation of \<open>getPathInObject\<close> in \<open>src/src/json-tokenize.js\<close>
  describes for completion providers: \<open>getPathInObject(tokenize(textUntilPosition))\<close>.
  The text before the cursor is an open context: a list of frames, each an object
  opened with \<open>{\<close>, some complete members, and the key being edited followed by
  \<open>:\<close> (\<open>ctx_tokens\<close>), then optionally one more object opened with \<open>{\<close>
  whose complete members end with \<open>,\<close>, where the cursor waits for a key
  (\<open>tail_tokens\<close>). For contexts whose members hold no array, the composition
  returns the keys of the frames (those equal to the array marker dropped) and
  \<open>true\<close> exactly when the cursor follows a \<open>:\<close>: a complete array-free value
  leaves the stack as it found it (\<open>path_run_value\<close>), and a frame pushes exactly
  its key (\<open>path_run_ctx\<close>). Inside arrays the machine is wrong, as theory
  \<open>PathInference\<close> shows for strings and \<open>path_array_of_objects\<close> here for
  objects: an array of \<open>n\<close> objects pops \<open>n\<close> frames instead of one.
\<close>

text \<open>JSON values with no array anywhere inside.\<close>

fun array_free :: "json \<Rightarrow> bool" where
  "array_free (JArr _) = False"
| "array_free (JObj ms) = list_all (\<lambda>m. array_free (snd m)) ms"
| "array_free _ = True"

text \<open>The tokens of an open context: per frame \<open>{\<close>, the complete members, \<open>,\<close>, the key, \<open>:\<close>.\<close>

fun ctx_tokens :: "((jstring \<times> json) list \<times> jstring) list \<Rightarrow> token list" where
  "ctx_tokens [] = []"
| "ctx_tokens ((ms, k) # fs) =
     punct ''{'' # members_tokens ms @ (if ms = [] then [] else [punct '','']) @
     str_tok k # punct '':'' # ctx_tokens fs"

text \<open>After the frames, optionally an object with complete members and a \<open>,\<close> after them.\<close>

fun tail_tokens :: "(jstring \<times> json) list option \<Rightarrow> token list" where
  "tail_tokens None = []"
| "tail_tokens (Some ms) = punct ''{'' # members_tokens ms @ (if ms = [] then [] else [punct '',''])"

definition ctx_text :: "((jstring \<times> json) list \<times> jstring) list \<Rightarrow> (jstring \<times> json) list option \<Rightarrow> jstring" where
  "ctx_text fs c = concat (map raw (ctx_tokens fs @ tail_tokens c))"

text \<open>Complete members that print without escapes and hold no array.\<close>

definition members_ok :: "(jstring \<times> json) list \<Rightarrow> bool" where
  "members_ok ms \<longleftrightarrow> list_all (\<lambda>m. plain (fst m) \<and> printable (snd m) \<and> array_free (snd m)) ms"

definition ctx_ok :: "((jstring \<times> json) list \<times> jstring) list \<Rightarrow> (jstring \<times> json) list option \<Rightarrow> bool" where
  "ctx_ok fs c \<longleftrightarrow> list_all (\<lambda>f. plain (snd f) \<and> members_ok (fst f)) fs \<and>
     (case c of None \<Rightarrow> True | Some ms \<Rightarrow> members_ok ms)"

text \<open>An object value.\<close>

fun is_obj :: "json \<Rightarrow> bool" where
  "is_obj (JObj _) = True"
| "is_obj _ = False"

subsection \<open>The stack machine over an open context\<close>

lemma path_step_erase [simp]: "path_step s (erase t) = path_step s t"
  by (simp add: path_step_def is_punct_def)

lemma path_run_erase: "path_run (map erase ts) s = path_run ts s"
  by (induction ts arbitrary: s) simp_all

lemma path_step_open_brace [simp]:
  "path_step s (punct ''{'') = \<lparr>stack = stack s, next_string_will_be_key = True\<rparr>"
  by (cases s) (simp add: path_step_def is_punct_def punct_def mk_tok_def js_def)

lemma path_step_tokens [simp]:
  "path_step s (punct ''}'') = \<lparr>stack = butlast (stack s), next_string_will_be_key = True\<rparr>"
  "path_step s (punct '':'') = s"
  "path_step s (punct '','') = s"
  "path_step s (punct ''['') = \<lparr>stack = stack s @ [list_marker], next_string_will_be_key = False\<rparr>"
  "path_step s (punct '']'') = \<lparr>stack = butlast (stack s), next_string_will_be_key = True\<rparr>"
  "path_step s (str_tok k) =
     (if next_string_will_be_key s then \<lparr>stack = stack s @ [JString k], next_string_will_be_key = False\<rparr>
      else \<lparr>stack = butlast (stack s), next_string_will_be_key = True\<rparr>)"
  "path_step s (mk_tok TNumber n v) = \<lparr>stack = butlast (stack s), next_string_will_be_key = True\<rparr>"
  "path_step s (mk_tok TLiteral r v) = \<lparr>stack = butlast (stack s), next_string_will_be_key = True\<rparr>"
  by (simp_all add: path_step_def is_punct_def punct_def str_tok_def mk_tok_def js_def js_push_def js_pop_def)

lemma path_run_value:
  "array_free j \<Longrightarrow>
   path_run (json_tokens j) \<lparr>stack = st @ [k], next_string_will_be_key = False\<rparr> =
     \<lparr>stack = st, next_string_will_be_key = True\<rparr>"
  "array_free (JArr vs) \<Longrightarrow> path_run (elems_tokens vs) s = s"
  "list_all (\<lambda>m. array_free (snd m)) ms \<Longrightarrow>
   path_run (members_tokens ms) \<lparr>stack = st, next_string_will_be_key = True\<rparr> =
     \<lparr>stack = st, next_string_will_be_key = True\<rparr>"
  by (induction j and vs and ms arbitrary: st k and s and st
      rule: json_tokens_elems_tokens_members_tokens.induct)
    (simp_all add: path_run_append)

lemma path_run_ctx:
  "list_all (\<lambda>f. list_all (\<lambda>m. array_free (snd m)) (fst f)) fs \<Longrightarrow>
   path_run (ctx_tokens fs) \<lparr>stack = st, next_string_will_be_key = b\<rparr> =
     (if fs = [] then \<lparr>stack = st, next_string_will_be_key = b\<rparr>
      else \<lparr>stack = st @ map (\<lambda>f. JString (snd f)) fs, next_string_will_be_key = False\<rparr>)"
proof (induction fs arbitrary: st b)
  case (Cons f fs)
  obtain ms k where f: "f = (ms, k)" by (cases f)
  have m: "path_run (members_tokens ms) \<lparr>stack = st, next_string_will_be_key = True\<rparr> =
      \<lparr>stack = st, next_string_will_be_key = True\<rparr>"
    using Cons.prems f by (intro path_run_value(3)) simp
  show ?case
    using Cons.IH [of "st @ [JString k]" False] Cons.prems m f by (simp add: path_run_append)
qed simp

lemma path_run_tail:
  "members_ok ms \<Longrightarrow>
   path_run (tail_tokens (Some ms)) \<lparr>stack = st, next_string_will_be_key = b\<rparr> =
     \<lparr>stack = st, next_string_will_be_key = True\<rparr>"
  using path_run_value(3) [of ms st] by (simp add: members_ok_def list_all_iff path_run_append)

lemma relexes_members_comma:
  "members_ok ms \<Longrightarrow> relexes rest \<Longrightarrow>
   relexes (members_tokens ms @ (if ms = [] then [] else [punct '','']) @ rest)"
proof (cases "ms = []")
  case False
  assume m: "members_ok ms" and r: "relexes rest"
  have "list_all (\<lambda>m. plain (fst m) \<and> printable (snd m)) ms"
    using m by (auto simp: members_ok_def list_all_iff)
  from relexes_json_tokens(3) [OF this, of "punct '','' # rest"] r False show ?thesis
    by (simp add: relexes_punct del: relexes.simps(2))
qed simp

lemma relexes_ctx_tokens:
  "list_all (\<lambda>f. plain (snd f) \<and> members_ok (fst f)) fs \<Longrightarrow> relexes rest \<Longrightarrow>
   relexes (ctx_tokens fs @ rest)"
proof (induction fs)
  case (Cons f fs)
  obtain ms k where f: "f = (ms, k)" by (cases f)
  have "relexes (str_tok k # punct '':'' # ctx_tokens fs @ rest)"
    using Cons f by (simp add: relexes_punct relexes_string del: relexes.simps(2))
  with Cons.prems f have "relexes (members_tokens ms @ (if ms = [] then [] else [punct '','']) @
      str_tok k # punct '':'' # ctx_tokens fs @ rest)"
    by (intro relexes_members_comma) simp_all
  then show ?case using f by (simp add: relexes_punct del: relexes.simps(2))
qed simp

lemma relexes_tail: "(case c of None \<Rightarrow> True | Some ms \<Rightarrow> members_ok ms) \<Longrightarrow> relexes (tail_tokens c)"
proof (cases c)
  case (Some ms)
  assume "case c of None \<Rightarrow> True | Some ms \<Rightarrow> members_ok ms"
  with Some have "relexes (members_tokens ms @ (if ms = [] then [] else [punct '','']) @ [])"
    by (intro relexes_members_comma) simp_all
  with Some show ?thesis by (simp add: relexes_punct del: relexes.simps(2))
qed simp

lemma path_run_object:
  "array_free (JObj ms) \<Longrightarrow>
   path_run (json_tokens (JObj ms)) s = \<lparr>stack = butlast (stack s), next_string_will_be_key = True\<rparr>"
  using path_run_value(3) [of ms "stack s"] by (simp add: path_run_append)

lemma path_run_object_elems:
  "list_all (\<lambda>v. is_obj v \<and> array_free v) os \<Longrightarrow> os \<noteq> [] \<Longrightarrow>
   path_run (elems_tokens os) s =
     \<lparr>stack = take (length (stack s) - length os) (stack s), next_string_will_be_key = True\<rparr>"
proof (induction os arbitrary: s rule: induct_list012)
  case (2 v)
  then obtain ms where "v = JObj ms" by (cases v) auto
  with 2 show ?case by (simp add: path_run_object butlast_conv_take del: json_tokens.simps)
next
  case (3 v w vs)
  then obtain ms where v: "v = JObj ms" by (cases v) auto
  with "3.IH"(2) "3.prems" show ?case
    by (simp add: path_run_append path_run_object butlast_conv_take min_def del: json_tokens.simps)
qed simp

subsection \<open>The completion query on the text before the cursor\<close>

text \<open>
  C10: for every open context of objects whose keys and strings need no escape,
  whose numerals are whole matches of the number rule and whose complete members
  hold no array, \<open>tokenize\<close> succeeds on its text and \<open>getPathInObject\<close> on the
  tokens returns the keys of the frames, without those equal to the array marker,
  and \<open>true\<close> (a value is expected) exactly when the text ends with a frame's
  \<open>key:\<close>, \<open>false\<close> when it ends where a key is expected or is empty.
\<close>

theorem get_path_in_object_open_objects:
  assumes "ctx_ok fs c"
  shows "\<exists>ts. tokenize (ctx_text fs c) = Inr ts \<and>
     get_path_in_object ts =
       (filter (\<lambda>f. f \<noteq> list_marker) (map (\<lambda>f. JString (snd f)) fs), fs \<noteq> [] \<and> c = None)"
proof -
  have fs: "list_all (\<lambda>f. plain (snd f) \<and> members_ok (fst f)) fs"
    and tl: "case c of None \<Rightarrow> True | Some ms \<Rightarrow> members_ok ms" using assms by (simp_all add: ctx_ok_def)
  from tokenize_loop_relexes [OF relexes_ctx_tokens [OF fs relexes_tail [OF tl]], of 0 "ctx_text fs c" start_pos "[]"]
  obtain ts where tok: "tokenize (ctx_text fs c) = Inr ts"
    and er: "map erase ts = map erase (ctx_tokens fs @ tail_tokens c)"
    by (auto simp: tokenize_def ctx_text_def)
  have "path_run ts path_init = path_run (ctx_tokens fs @ tail_tokens c) path_init"
    by (metis er path_run_erase)
  moreover have "list_all (\<lambda>f. list_all (\<lambda>m. array_free (snd m)) (fst f)) fs"
    using fs by (auto simp: members_ok_def list_all_iff)
  then have ctx: "path_run (ctx_tokens fs) path_init =
      \<lparr>stack = map (\<lambda>f. JString (snd f)) fs, next_string_will_be_key = (fs = [])\<rparr>"
    using path_run_ctx [of fs "[]" True] by (simp add: path_init_def)
  ultimately show ?thesis
    using tok tl path_run_tail
    by (cases c) (simp_all add: get_path_in_object_def path_run_append ctx del: tail_tokens.simps(2))
qed

text \<open>
  C27: inside an array each element object ends with \<open>}\<close>, which pops whatever is
  on top of the stack, the array marker first and then the keys of the enclosing
  objects, while its \<open>{\<close> pushes nothing. A complete array of \<open>n\<close> array-free
  objects, read as a member's value, therefore removes \<open>n\<close> entries from the stack
  where a value removes one (\<open>path_run_value\<close>): from the second object on, the
  keys of the enclosing objects are lost.
\<close>

theorem path_array_of_objects:
  "list_all (\<lambda>v. is_obj v \<and> array_free v) os \<Longrightarrow> os \<noteq> [] \<Longrightarrow>
   path_run (json_tokens (JArr os)) \<lparr>stack = st, next_string_will_be_key = False\<rparr> =
     \<lparr>stack = take (length st - length os) st, next_string_will_be_key = True\<rparr>"
proof -
  assume ob: "list_all (\<lambda>v. is_obj v \<and> array_free v) os" and ne: "os \<noteq> []"
  have "path_run (elems_tokens os) \<lparr>stack = st @ [list_marker], next_string_will_be_key = False\<rparr> =
      \<lparr>stack = take (Suc (length st) - length os) (st @ [list_marker]), next_string_will_be_key = True\<rparr>"
    using path_run_object_elems [OF ob ne] by simp
  moreover have "take (Suc (length st) - length os) (st @ [list_marker]) = take (Suc (length st) - length os) st"
    using ne by (cases os) simp_all
  ultimately show ?thesis
    by (simp add: path_run_append butlast_conv_take)
qed

subsection \<open>Witnesses\<close>

theorem get_path_in_object_open_objects_witness:
  "ctx_ok [([(js ''name'', JStr (js ''test'')), (js ''o'', JObj [(js ''b'', JNum (js ''1''))])], js ''dependencies'')]
          (Some [(js ''x'', JBoolean True)]) \<and>
   (\<exists>ts. tokenize (ctx_text [([(js ''name'', JStr (js ''test'')), (js ''o'', JObj [(js ''b'', JNum (js ''1''))])],
                                 js ''dependencies'')] (Some [(js ''x'', JBoolean True)])) = Inr ts \<and>
         get_path_in_object ts = ([JString (js ''dependencies'')], False))"
proof -
  have ok: "ctx_ok [([(js ''name'', JStr (js ''test'')), (js ''o'', JObj [(js ''b'', JNum (js ''1''))])], js ''dependencies'')]
          (Some [(js ''x'', JBoolean True)])"
    by (simp add: ctx_ok_def members_ok_def plain_def match_number_def int_part_len_def frac_len_def
        exp_len_def digits_len_def is_digit_def js_def)
  show ?thesis
    using get_path_in_object_open_objects [OF ok] ok by (simp add: list_marker_def)
qed

theorem path_array_of_objects_witness:
  "list_all (\<lambda>v. is_obj v \<and> array_free v) [JObj [(js ''x'', JNum (js ''1''))], JObj [(js ''y'', JNum (js ''2''))]] \<and>
   path_run (json_tokens (JArr [JObj [(js ''x'', JNum (js ''1''))], JObj [(js ''y'', JNum (js ''2''))]]))
     \<lparr>stack = [JString (js ''k''), JString (js ''a'')], next_string_will_be_key = False\<rparr> =
     \<lparr>stack = [], next_string_will_be_key = True\<rparr>"
proof -
  have ob: "list_all (\<lambda>v. is_obj v \<and> array_free v) [JObj [(js ''x'', JNum (js ''1''))], JObj [(js ''y'', JNum (js ''2''))]]"
    by simp
  show ?thesis using path_array_of_objects [OF ob] ob by simp
qed

end
