(* ===== verification/Bracketing.thy ===== *)
theory Bracketing
  imports Json_Value
begin

text \<open>
  The token streams the AST builder of \<open>src/src/json-parse-ast.js\<close> accepts. The
  specification says the recursive descent needs no bracket counting because every
  child is parsed before the loop looks for the closing token again. That
  statement is made exact here: \<open>item\<close> and \<open>items\<close> are the well-bracketed token
  sequences, a grammar with one rule per branch of \<open>parseTokens\<close> and of the
  \<open>while\<close> loop of \<open>parseObject\<close>/\<open>parseArray\<close>. \<open>parseTokens\<close> returns a
  tree exactly when the stream starts with an item (\<open>parse_wellbracketed\<close>,
  \<open>parse_only_wellbracketed\<close>, both over the fuelled descent; the exported
  function follows because fuel never matters). \<open>opened\<close> describes the tokens of
  a document cut off inside containers, the case the tokenizer is built for; on
  them the builder always fails by reading past the end of the token array.
\<close>

text \<open>
  An item is one leaf token (a comment, whitespace, string, literal, number, or a
  \<open>:\<close> or \<open>,\<close>), or a container: its opening bracket, items none of which starts
  with the closing bracket, and a token whose raw text is the closing bracket
  (the loop compares only \<open>raw\<close>).
\<close>

inductive item :: "token list \<Rightarrow> bool"
and items :: "jstring \<Rightarrow> token list \<Rightarrow> bool" where
  leaf: "ttype t \<in> {TInlineComment, TMultilineComment, TWhitespace, TString, TLiteral, TNumber} \<Longrightarrow> item [t]"
| sep: "ttype t = TPunctuation \<Longrightarrow> raw t = js '':'' \<or> raw t = js '','' \<Longrightarrow> item [t]"
| obj: "ttype b = TPunctuation \<Longrightarrow> raw b = js ''{'' \<Longrightarrow> items (js ''}'') xs \<Longrightarrow> raw c = js ''}'' \<Longrightarrow>
        item (b # xs @ [c])"
| arr: "ttype b = TPunctuation \<Longrightarrow> raw b = js ''['' \<Longrightarrow> items (js '']'') xs \<Longrightarrow> raw c = js '']'' \<Longrightarrow>
        item (b # xs @ [c])"
| nil: "items cl []"
| cons: "item xs \<Longrightarrow> raw (hd xs) \<noteq> cl \<Longrightarrow> items cl ys \<Longrightarrow> items cl (xs @ ys)"

text \<open>
  A stream cut off inside containers: an opening bracket, complete items, and
  either the end of the stream or another such stream.
\<close>

inductive opened :: "token list \<Rightarrow> bool" where
  open_obj: "ttype b = TPunctuation \<Longrightarrow> raw b = js ''{'' \<Longrightarrow> items (js ''}'') xs \<Longrightarrow> opened (b # xs)"
| open_arr: "ttype b = TPunctuation \<Longrightarrow> raw b = js ''['' \<Longrightarrow> items (js '']'') xs \<Longrightarrow> opened (b # xs)"
| nest_obj: "ttype b = TPunctuation \<Longrightarrow> raw b = js ''{'' \<Longrightarrow> items (js ''}'') xs \<Longrightarrow> opened ys \<Longrightarrow>
             opened (b # xs @ ys)"
| nest_arr: "ttype b = TPunctuation \<Longrightarrow> raw b = js ''['' \<Longrightarrow> items (js '']'') xs \<Longrightarrow> opened ys \<Longrightarrow>
             opened (b # xs @ ys)"

subsection \<open>The fuelled descent on well-bracketed and truncated streams\<close>

lemma item_nonempty: "item xs \<Longrightarrow> xs \<noteq> []"
  by (induction rule: item.cases) auto

lemma items_Cons: "item [t] \<Longrightarrow> raw t \<noteq> cl \<Longrightarrow> items cl ts \<Longrightarrow> items cl (t # ts)"
  using item_items.cons [of "[t]" cl ts] by simp

lemma parse_wellbracketed:
  "item xs \<Longrightarrow> \<exists>f n. parse_tokens_from f (pre @ xs @ post) (length pre) = Inr (length pre + length xs, n) \<and>
     ast_raw n = concat (map raw xs)"
  "items cl xs \<Longrightarrow> raw c = cl \<Longrightarrow> \<exists>f ns.
     parse_children f cl (pre @ xs @ c # post) (length pre) = Inr (length pre + length xs, ns) \<and>
     concat (map ast_raw ns) = concat (map raw xs)"
proof (induction arbitrary: pre post and pre post c rule: item_items.inducts)
  case (leaf t)
  then show ?case
    by (intro exI [of _ 1]) (auto simp: leaf_parsers nth_append)
next
  case (sep t)
  then show ?case
    by (intro exI [of _ 1]) (auto simp: leaf_parsers nth_append)
next
  case (obj b xs c)
  obtain f ns where p: "parse_children f (js ''}'') ((pre @ [b]) @ xs @ c # post) (length (pre @ [b])) =
      Inr (length (pre @ [b]) + length xs, ns)" and r: "concat (map ast_raw ns) = concat (map raw xs)"
    using obj.IH [where pre="pre @ [b]" and c=c and post=post] obj.hyps(4) by blast
  show ?case
    using obj.hyps(1,2) p r
    by (intro exI [of _ "Suc f"])
      (simp add: nth_append make_object_def parse_token_def del: parse_children.simps)
next
  case (arr b xs c)
  obtain f ns where p: "parse_children f (js '']'') ((pre @ [b]) @ xs @ c # post) (length (pre @ [b])) =
      Inr (length (pre @ [b]) + length xs, ns)" and r: "concat (map ast_raw ns) = concat (map raw xs)"
    using arr.IH [where pre="pre @ [b]" and c=c and post=post] arr.hyps(4) by blast
  show ?case
    using arr.hyps(1,2) p r
    by (intro exI [of _ "Suc f"])
      (simp add: nth_append make_array_def parse_token_def del: parse_children.simps)
next
  case (nil cl)
  then show ?case by (intro exI [of _ 1]) (simp add: nth_append)
next
  case (cons xs cl ys)
  obtain f n where p: "parse_tokens_from f (pre @ xs @ ys @ c # post) (length pre) = Inr (length pre + length xs, n)"
    and r: "ast_raw n = concat (map raw xs)"
    using cons.IH(1) [where pre=pre and post="ys @ c # post"] by blast
  obtain g ns where q: "parse_children g cl ((pre @ xs) @ ys @ c # post) (length (pre @ xs)) =
      Inr (length (pre @ xs) + length ys, ns)" and rs: "concat (map ast_raw ns) = concat (map raw ys)"
    using cons.IH(2) [where pre="pre @ xs" and c=c and post=post] cons.prems by blast
  have ne: "xs \<noteq> []" by (rule item_nonempty) fact
  have h: "(pre @ (xs @ ys) @ c # post) ! length pre = hd xs" using ne by (simp add: nth_append hd_conv_nth)
  have p': "parse_tokens_from (max f g) (pre @ (xs @ ys) @ c # post) (length pre) = Inr (length pre + length xs, n)"
    using parse_tokens_from_more_fuel [OF p] by simp
  have q': "parse_children (max f g) cl (pre @ (xs @ ys) @ c # post) (length pre + length xs) =
      Inr (length pre + length (xs @ ys), ns)"
    using parse_children_more_fuel [OF q] by simp
  show ?case
    using cons.hyps(2) ne h p' q' r rs
    by (intro exI [of _ "Suc (max f g)"]) (simp add: nth_append del: parse_tokens_from.simps)
qed

lemma parse_only_wellbracketed:
  "parse_tokens_from f ts cur = Inr (c, n) \<Longrightarrow> item (take (c - cur) (drop cur ts))"
  "parse_children f cl ts cur = Inr (c, ns) \<Longrightarrow> items cl (take (c - cur) (drop cur ts))"
proof (induction f ts cur and f cl ts cur arbitrary: c n and c ns rule: parse_tokens_from_parse_children.induct)
  case (2 fuel tokens current)
  from "2.prems" have lt: "current < length tokens" by (simp split: if_splits)
  show ?case
  proof (cases "ttype (tokens ! current)")
    case TPunctuation
    show ?thesis
    proof (cases "raw (tokens ! current) = js ''{''")
      case True
      with "2.prems" lt TPunctuation obtain c' kids where
        ch: "parse_children fuel (js ''}'') tokens (Suc current) = Inr (c', kids)" and cn: "c = Suc c'"
        by (auto split: sum.splits)
      from "2.IH"(1) [OF _ TPunctuation True ch] lt
      have "items (js ''}'') (take (c' - Suc current) (drop (Suc current) tokens))" by simp
      moreover from parse_progress(2) [OF ch] have "Suc current \<le> c'" "c' < length tokens" "raw (tokens ! c') = js ''}''"
        by auto
      ultimately show ?thesis using TPunctuation True cn by (simp add: take_drop_enclosed item_items.obj)
    next
      case nb: False
      show ?thesis
      proof (cases "raw (tokens ! current) = js ''[''")
        case True
        with "2.prems" lt TPunctuation nb obtain c' kids where
          ch: "parse_children fuel (js '']'') tokens (Suc current) = Inr (c', kids)" and cn: "c = Suc c'"
          by (auto split: sum.splits)
        from "2.IH"(2) [OF _ TPunctuation nb True ch] lt
        have "items (js '']'') (take (c' - Suc current) (drop (Suc current) tokens))" by simp
        moreover from parse_progress(2) [OF ch] have "Suc current \<le> c'" "c' < length tokens" "raw (tokens ! c') = js '']''"
          by auto
        ultimately show ?thesis using TPunctuation True cn by (simp add: take_drop_enclosed item_items.arr)
      next
        case False
        with "2.prems" lt TPunctuation nb show ?thesis
          by (auto simp: parse_token_def take_drop_one intro: item_items.sep split: if_splits)
      qed
    qed
  qed (use "2.prems" lt in \<open>auto simp: leaf_parsers take_drop_one intro: item_items.leaf\<close>)
next
  case (4 fuel close tokens cur)
  from "4.prems" have lt: "cur < length tokens" by (simp split: if_splits)
  show ?case
  proof (cases "raw (tokens ! cur) = close")
    case True
    with "4.prems" lt show ?thesis by (simp add: item_items.nil)
  next
    case False
    with "4.prems" lt obtain c' child ns' where
      p: "parse_tokens_from fuel tokens cur = Inr (c', child)"
      and ch: "parse_children fuel close tokens c' = Inr (c, ns')"
      by (auto split: sum.splits)
    from "4.IH"(1) [OF _ False p] lt have i1: "item (take (c' - cur) (drop cur tokens))" by simp
    from "4.IH"(2) [OF _ False p refl ch] lt have i2: "items close (take (c - c') (drop c' tokens))" by simp
    from parse_progress(1) [OF p] have b1: "cur < c'" "c' \<le> length tokens" by auto
    from parse_progress(2) [OF ch] have b2: "c' \<le> c" by auto
    have "take (c - cur) (drop cur tokens) = take (c' - cur) (drop cur tokens) @ take (c - c') (drop c' tokens)"
      using take_drop_split [of cur c' c tokens] b1 b2 by simp
    moreover have "raw (hd (take (c' - cur) (drop cur tokens))) \<noteq> close"
      using False b1 by (simp add: hd_drop_conv_nth)
    ultimately show ?thesis using i1 i2 by (simp add: item_items.cons)
  qed
qed simp_all

lemma opened_head: "opened ys \<Longrightarrow> \<exists>b r. ys = b # r \<and> ttype b = TPunctuation \<and> (raw b = js ''{'' \<or> raw b = js ''['')"
  by (induction rule: opened.induct) auto

lemma items_then_error:
  assumes "items cl xs" "parse_children g cl (pre @ xs @ rest) (length pre + length xs) = Inl e" "e \<noteq> Out_of_fuel"
  shows "\<exists>f. parse_children f cl (pre @ xs @ rest) (length pre) = Inl e"
  using assms
proof (induction "length xs" arbitrary: xs pre g rule: less_induct)
  case less
  from less.prems(1) show ?case
  proof (cases rule: items.cases)
    case nil
    then show ?thesis using less.prems(2) by auto
  next
    case (cons ys zs)
    have ne: "ys \<noteq> []" by (rule item_nonempty) fact
    obtain f1 n where p: "parse_tokens_from f1 (pre @ ys @ zs @ rest) (length pre) = Inr (length pre + length ys, n)"
      using parse_wellbracketed(1) [OF cons(2), where pre=pre and post="zs @ rest"] by blast
    obtain f2 where q: "parse_children f2 cl ((pre @ ys) @ zs @ rest) (length (pre @ ys)) = Inl e"
      using less.hyps [where xs=zs and pre="pre @ ys" and g=g] cons less.prems(2,3) ne by (auto simp: add.assoc)
    have p': "parse_tokens_from (max f1 f2) (pre @ xs @ rest) (length pre) = Inr (length pre + length ys, n)"
      using parse_tokens_from_more_fuel [OF p] cons(1) by simp
    have q': "parse_children (max f1 f2) cl (pre @ xs @ rest) (length pre + length ys) = Inl e"
      using parse_children_more_fuel_err [OF q less.prems(3)] cons(1) by simp
    have h: "(pre @ xs @ rest) ! length pre = hd ys" using ne cons(1) by (simp add: nth_append hd_conv_nth)
    have l: "xs \<noteq> []" using ne cons(1) by simp
    show ?thesis
      using cons(3) h l p' q'
      by (intro exI [of _ "Suc (max f1 f2)"]) (simp del: parse_tokens_from.simps)
  qed
qed

lemma parse_opened:
  "opened ts \<Longrightarrow> \<exists>f. parse_tokens_from f (pre @ ts) (length pre) = Inl TypeError_undefined_token"
proof (induction arbitrary: pre rule: opened.induct)
  case (open_obj b xs)
  have "parse_children 1 (js ''}'') ((pre @ [b]) @ xs @ []) (length (pre @ [b]) + length xs) = Inl TypeError_undefined_token"
    by simp
  from items_then_error [OF open_obj(3) this] obtain f where
    "parse_children f (js ''}'') (pre @ b # xs) (Suc (length pre)) = Inl TypeError_undefined_token" by auto
  with open_obj(1,2) show ?case by (intro exI [of _ "Suc f"]) (simp add: nth_append del: parse_children.simps)
next
  case (open_arr b xs)
  have "parse_children 1 (js '']'') ((pre @ [b]) @ xs @ []) (length (pre @ [b]) + length xs) = Inl TypeError_undefined_token"
    by simp
  from items_then_error [OF open_arr(3) this] obtain f where
    "parse_children f (js '']'') (pre @ b # xs) (Suc (length pre)) = Inl TypeError_undefined_token" by auto
  with open_arr(1,2) show ?case by (intro exI [of _ "Suc f"]) (simp add: nth_append del: parse_children.simps)
next
  case (nest_obj b xs ys)
  obtain g where g: "parse_tokens_from g ((pre @ b # xs) @ ys) (length (pre @ b # xs)) = Inl TypeError_undefined_token"
    using nest_obj.IH by blast
  obtain y r where y: "ys = y # r" "raw y \<noteq> js ''}''" using opened_head [OF nest_obj(4)] by auto
  have "parse_children (Suc g) (js ''}'') ((pre @ [b]) @ xs @ ys) (length (pre @ [b]) + length xs) = Inl TypeError_undefined_token"
    using g y by (simp add: nth_append del: parse_tokens_from.simps)
  from items_then_error [OF nest_obj(3) this] obtain f where
    "parse_children f (js ''}'') (pre @ b # xs @ ys) (Suc (length pre)) = Inl TypeError_undefined_token" by auto
  with nest_obj(1,2) show ?case by (intro exI [of _ "Suc f"]) (simp add: nth_append del: parse_children.simps)
next
  case (nest_arr b xs ys)
  obtain g where g: "parse_tokens_from g ((pre @ b # xs) @ ys) (length (pre @ b # xs)) = Inl TypeError_undefined_token"
    using nest_arr.IH by blast
  obtain y r where y: "ys = y # r" "raw y \<noteq> js '']''" using opened_head [OF nest_arr(4)] by auto
  have "parse_children (Suc g) (js '']'') ((pre @ [b]) @ xs @ ys) (length (pre @ [b]) + length xs) = Inl TypeError_undefined_token"
    using g y by (simp add: nth_append del: parse_tokens_from.simps)
  from items_then_error [OF nest_arr(3) this] obtain f where
    "parse_children f (js '']'') (pre @ b # xs @ ys) (Suc (length pre)) = Inl TypeError_undefined_token" by auto
  with nest_arr(1,2) show ?case by (intro exI [of _ "Suc f"]) (simp add: nth_append del: parse_children.simps)
qed

subsection \<open>The builder's domain\<close>

text \<open>
  C12 (liveness): on every token stream that starts with a well-bracketed item,
  every \<open>while\<close> loop of \<open>parseObject\<close> and \<open>parseArray\<close> reaches its closing
  token and \<open>parseTokens\<close> returns a tree whose raw text is that item.
\<close>

theorem parse_tokens_wellbracketed:
  assumes "item xs"
  shows "\<exists>n. parse_tokens (xs @ post) = Inr n \<and> ast_raw n = concat (map raw xs)"
proof -
  from parse_wellbracketed(1) [OF assms, where pre="[]" and post=post] obtain f n where
    "parse_tokens_from f (xs @ post) 0 = Inr (length xs, n)" "ast_raw n = concat (map raw xs)" by auto
  with parse_tokens_from_any_fuel show ?thesis by blast
qed

text \<open>
  C13: conversely, whenever \<open>parseTokens\<close> returns a tree, the stream starts with a
  well-bracketed item and the tree's raw text is that item: the builder accepts
  exactly the streams the grammar \<open>item\<close> describes, with no bracket counting.
\<close>

theorem parse_tokens_only_wellbracketed:
  assumes "parse_tokens ts = Inr n"
  shows "\<exists>xs post. ts = xs @ post \<and> item xs \<and> ast_raw n = concat (map raw xs)"
proof -
  from assms obtain c where p: "parse_tokens_from (parse_fuel ts) ts 0 = Inr (c, n)"
    by (auto simp: parse_tokens_def split: sum.splits)
  show ?thesis
    using parse_only_wellbracketed(1) [OF p] parse_progress(1) [OF p]
    by (intro exI [of _ "take c ts"] exI [of _ "drop c ts"]) simp
qed

text \<open>
  C14 (error): on the tokens of a truncated document, a container opened and never
  closed, with only well-bracketed items or further unclosed containers after its
  opening bracket, \<open>parseTokens\<close> reads past the end of the token array and fails
  with the \<open>TypeError\<close> of that access.
\<close>

theorem parse_tokens_unterminated:
  assumes "opened ts"
  shows "parse_tokens ts = Inl TypeError_undefined_token"
proof -
  from parse_opened [OF assms, where pre="[]"] obtain f where
    "parse_tokens_from f ts 0 = Inl TypeError_undefined_token" by auto
  then show ?thesis by (rule parse_tokens_any_fuel_err) simp
qed

subsection \<open>Witnesses\<close>

theorem parse_tokens_wellbracketed_witness:
  "item (punct ''{'' # [str_tok (js ''a''), punct '':'', mk_tok TWhitespace (js '' '') (JString (js '' '')),
                       mk_tok TNumber (js ''1'') (JNumber (js ''1''))] @ [punct ''}'']) \<and>
   (\<exists>n. parse_tokens ((punct ''{'' # [str_tok (js ''a''), punct '':'', mk_tok TWhitespace (js '' '') (JString (js '' '')),
                       mk_tok TNumber (js ''1'') (JNumber (js ''1''))] @ [punct ''}'']) @ [punct '','']) = Inr n \<and>
        ast_raw n = js ''{'' @ [34] @ js ''a'' @ [34] @ js '': 1}'')"
proof -
  have i: "item (punct ''{'' # [str_tok (js ''a''), punct '':'', mk_tok TWhitespace (js '' '') (JString (js '' '')),
                       mk_tok TNumber (js ''1'') (JNumber (js ''1''))] @ [punct ''}''])"
    by (intro item_items.obj items_Cons item_items.leaf item_items.sep item_items.nil)
      (simp_all add: punct_def str_tok_def mk_tok_def js_def)
  show ?thesis
    using parse_tokens_wellbracketed [OF i, of "[punct '','']"] i
    by (simp add: punct_def str_tok_def mk_tok_def js_def)
qed

theorem parse_tokens_only_wellbracketed_witness:
  "\<exists>n. parse_tokens [punct ''['', punct '']'', punct '','', punct '']''] = Inr n \<and>
     (\<exists>xs post. [punct ''['', punct '']'', punct '','', punct '']''] = xs @ post \<and> item xs \<and>
        ast_raw n = concat (map raw xs))"
proof -
  have "\<exists>n. parse_tokens [punct ''['', punct '']'', punct '','', punct '']''] = Inr n"
    by (simp add: parse_eval punct_def mk_tok_def js_def)
  then obtain n where p: "parse_tokens [punct ''['', punct '']'', punct '','', punct '']''] = Inr n" by blast
  show ?thesis using parse_tokens_only_wellbracketed [OF p] p by blast
qed

theorem parse_tokens_unterminated_witness:
  "opened (punct ''{'' # [str_tok (js ''a''), punct '':''] @ punct ''['' # [mk_tok TNumber (js ''1'') (JNumber (js ''1'')), punct '','']) \<and>
   parse_tokens (punct ''{'' # [str_tok (js ''a''), punct '':''] @ punct ''['' # [mk_tok TNumber (js ''1'') (JNumber (js ''1'')), punct '','']) =
     Inl TypeError_undefined_token"
proof -
  have o: "opened (punct ''{'' # [str_tok (js ''a''), punct '':''] @ punct ''['' # [mk_tok TNumber (js ''1'') (JNumber (js ''1'')), punct '',''])"
    by (intro opened.nest_obj opened.open_arr items_Cons item_items.leaf item_items.sep item_items.nil)
      (simp_all add: punct_def str_tok_def mk_tok_def js_def)
  show ?thesis using parse_tokens_unterminated [OF o] o by simp
qed

end
