(* ===== verification/Declared_Types.thy ===== *)
theory Declared_Types
  imports Tokenizer Json_Value PathInference
begin

text \<open>
  The TypeScript declarations of \<open>src/src/json-parse-ast.d.ts\<close>, read as predicates
  on the model's values, and what the code does against them. The declarations
  give a token a \<open>value\<close> of type \<open>string\<close> and \<open>getPathInObject\<close> the
  result \<open>[string[], boolean]\<close>. The code conforms on \<open>getPathInObject\<close> and on
  every token but numbers and literals, whose \<open>create\<close> callbacks store a number,
  a boolean or \<open>null\<close>.
\<close>

text \<open>A value of the TypeScript type \<open>string\<close>.\<close>

definition ts_string :: "jvalue \<Rightarrow> bool" where
  "ts_string v \<longleftrightarrow> (case v of JString _ \<Rightarrow> True | _ \<Rightarrow> False)"

text \<open>\<open>interface Token\<close>: its \<open>value\<close> is a \<open>string\<close>.\<close>

definition token_declared :: "token \<Rightarrow> bool" where
  "token_declared t \<longleftrightarrow> ts_string (tvalue t)"

text \<open>\<open>getPathInObject(tokens: Token[]): [string[], boolean]\<close>\<close>

definition path_result_declared :: "jvalue list \<times> bool \<Rightarrow> bool" where
  "path_result_declared r \<longleftrightarrow> list_all ts_string (fst r)"

subsection \<open>Lemmas\<close>

lemma token_wf_declared:
  "token_wf t \<Longrightarrow> token_declared t \<longleftrightarrow> ttype t \<noteq> TNumber \<and> ttype t \<noteq> TLiteral"
  by (auto simp: token_wf_def token_declared_def ts_string_def split: token_type.splits jvalue.splits)

lemma token_wf_string_value: "token_wf t \<Longrightarrow> ttype t = TString \<Longrightarrow> ts_string (tvalue t)"
  by (auto simp: token_wf_def ts_string_def split: jvalue.splits)

lemma path_step_declared:
  "token_wf t \<Longrightarrow> list_all ts_string (stack s) \<Longrightarrow> list_all ts_string (stack (path_step s t))"
proof -
  assume wf: "token_wf t" and st: "list_all ts_string (stack s)"
  have "ts_string list_marker" by (simp add: list_marker_def ts_string_def)
  then show ?thesis
    using st token_wf_string_value [OF wf]
    by (auto simp: path_step_def js_push_def js_pop_def list_all_iff dest: in_set_butlastD)
qed

lemma path_run_declared:
  "list_all token_wf ts \<Longrightarrow> list_all ts_string (stack s) \<Longrightarrow> list_all ts_string (stack (path_run ts s))"
  by (induction ts arbitrary: s) (simp_all add: path_step_declared)

subsection \<open>The declarations against the code\<close>

text \<open>
  C31 (type): a token \<open>tokenize\<close> returns has the declared \<open>value: string\<close>
  exactly when it is not a number or a literal; numbers carry \<open>+value\<close> and
  literals a boolean or \<open>null\<close>, contrary to the declaration.
\<close>

theorem tokenize_value_types:
  "tokenize json = Inr ts \<Longrightarrow> list_all (\<lambda>t. token_declared t \<longleftrightarrow> ttype t \<noteq> TNumber \<and> ttype t \<noteq> TLiteral) ts"
proof -
  assume "tokenize json = Inr ts"
  then have "list_all token_wf ts" unfolding tokenize_def by (rule tokenize_loop_wf) simp
  then show ?thesis by (simp add: list_all_iff token_wf_declared)
qed

text \<open>
  C32 (type): on the tokens of any text, \<open>getPathInObject\<close> returns a value of its
  declared type \<open>[string[], boolean]\<close>: every frame of the path is a string.
\<close>

theorem get_path_in_object_declared:
  "tokenize json = Inr ts \<Longrightarrow> path_result_declared (get_path_in_object ts)"
proof -
  assume "tokenize json = Inr ts"
  then have "list_all token_wf ts" unfolding tokenize_def by (rule tokenize_loop_wf) simp
  then show ?thesis
    using path_run_declared [of ts path_init]
    by (simp add: path_result_declared_def get_path_in_object_def path_init_def list_all_iff Let_def)
qed

subsection \<open>Witnesses\<close>

theorem tokenize_value_types_witness:
  "tokenize (js ''[1, null]'') = Inr (projr (tokenize (js ''[1, null]''))) \<and>
   list_all (\<lambda>t. token_declared t \<longleftrightarrow> ttype t \<noteq> TNumber \<and> ttype t \<noteq> TLiteral) (projr (tokenize (js ''[1, null]''))) \<and>
   map ttype (filter (\<lambda>t. \<not> token_declared t) (projr (tokenize (js ''[1, null]'')))) = [TNumber, TLiteral]"
proof -
  have t: "tokenize (js ''[1, null]'') = Inr (projr (tokenize (js ''[1, null]'')))"
    by (simp add: tokenize_eval)
  have "map ttype (filter (\<lambda>t. \<not> token_declared t) (projr (tokenize (js ''[1, null]'')))) = [TNumber, TLiteral]"
    by (simp add: tokenize_eval token_declared_def ts_string_def)
  then show ?thesis using tokenize_value_types [OF t] t by simp
qed

theorem get_path_in_object_declared_witness:
  "let s = js ''{'' @ [34] @ js ''a'' @ [34] @ js '': [true, {'' @ [34] @ js ''b'' @ [34] @ js '': '' in
   tokenize s = Inr (projr (tokenize s)) \<and> path_result_declared (get_path_in_object (projr (tokenize s)))"
proof -
  define s where "s = js ''{'' @ [34] @ js ''a'' @ [34] @ js '': [true, {'' @ [34] @ js ''b'' @ [34] @ js '': ''"
  have t: "tokenize s = Inr (projr (tokenize s))"
    by (simp add: s_def tokenize_eval)
  show ?thesis unfolding Let_def s_def [symmetric] using get_path_in_object_declared [OF t] t by blast
qed

end
