(* ===== verification/Spec2Isabelle.thy ===== *)
theory Spec2Isabelle
  imports Tokenizer Query PathInference Json_Value Pipeline Completion Bracketing Declared_Types
begin

text \<open>
  A verification library for json-parse-ast, a lenient JSON tokenizer (JSON plus
  \<open>//\<close> and \<open>/* */\<close> comments) with a lossless, position-annotated AST and
  position and path queries for editors.

  \<^bold>\<open>Parts of the program and how they interact.\<close> Source text goes to the
  tokenizer; its tokens go either to the AST builder, whose tree the position
  queries read, or to the path inference, which reads the tokens directly.
  \<^item> The tokenizer, \<open>tokenize\<close> in \<open>src/src/json-tokenize.js\<close> (verbatim copy in
    \<open>src/src/json-parse-ast.js\<close>), turns the source text into tokens with
    Monaco ranges. Theories \<open>Lexer_Rules\<close> (the \<open>tokenTypes\<close> table: one matcher
    per regular expression, one creator per \<open>create\<close> callback, \<open>JSON.parse\<close>
    on string tokens; \<open>token_wf\<close>, the shape of a created token) and
    \<open>Tokenizer\<close> (the scanning loop \<open>tokenize_loop\<close>, the position update
    \<open>advance\<close>, \<open>tokenize\<close>).
  \<^item> The AST builder, \<open>parseTokens\<close> in \<open>src/src/json-parse-ast.js\<close> (the same
    builder without \<open>extractValues\<close> is \<open>src/src/json-parse.js\<close>), builds the
    tree from the tokens by recursive descent over a cursor. Theory \<open>Ast\<close>:
    the node datatype \<open>ast\<close>, the leaf parsers, \<open>parse_tokens_from\<close> and
    \<open>parse_children\<close> (the internal \<open>parseTokens(tokens, current)\<close> and the
    \<open>while\<close> loop of \<open>parseObject\<close>/\<open>parseArray\<close>), \<open>make_object\<close>,
    \<open>make_array\<close>, the exported \<open>parse_tokens\<close>, the \<open>raw\<close> getter
    \<open>ast_raw\<close> and the \<open>extractValues\<close> loops. Theory \<open>Json_Value\<close>: what the
    builder promises, JSON values, their token streams, and the abstraction of a
    tree through the node-returning \<open>extractValues()\<close> views. Theory
    \<open>Bracketing\<close>: the builder's domain, a grammar of well-bracketed token
    streams (\<open>item\<close>, \<open>items\<close>) and of streams cut off inside containers
    (\<open>opened\<close>).
  \<^item> The position queries, \<open>findAtPosition\<close>, \<open>getKeyInParent\<close>,
    \<open>isKeyInParent\<close> in \<open>src/src/json-parse-ast.js\<close>: theory \<open>Query\<close>. A node is
    referred to by its index path from the root; its \<open>parent\<close> property is the
    flag the builder sets.
  \<^item> The path inference, \<open>getPathInObject\<close> and \<open>getPositionOfKeys\<close> in
    \<open>src/src/json-tokenize.js\<close> (copies in \<open>src/src/json-parse-ast.js\<close>): theory
    \<open>PathInference\<close>, each loop a fold of its body over a state record, with the
    reachable states of \<open>getPathInObject\<close> as an inductive predicate.
  \<^item> The two exported functions composed, text to tokens to tree: theory
    \<open>Pipeline\<close>, over the printed text of a JSON value, with token and node
    ranges erased to compare the tokenizer's output with the printed tokens.
    Theory \<open>Completion\<close> composes the tokenizer with the path inference as the
    documentation of \<open>getPathInObject\<close> suggests, on the text before a cursor.
  \<^item> The TypeScript declarations \<open>src/src/json-parse-ast.d.ts\<close>: theory
    \<open>Declared_Types\<close> reads the declared value types as predicates on tokens
    and on the path result (\<open>token_declared\<close>, \<open>path_result_declared\<close>); the
    declared signatures are the types of the model's functions.
  The token record of theory \<open>Tokens\<close> is the interface between the tokenizer
  and its clients; \<open>Prelude\<close> holds the JavaScript string type (UTF-16 code
  units, \<open>jstring = nat list\<close>), the error datatype and shared list lemmas.

  \<^bold>\<open>What is shown.\<close> Tokenizer: the loop terminates; the tokens' raw texts
  concatenate to a prefix of the input, the rest being empty or unmatched; every
  token is well formed, there are at most as many tokens as code units, and each
  range starts at line and column 1 or later and is as wide as its text on one
  line; each range starts at the true line, and one column too far right once a
  line break was crossed; the only exception is \<open>JSON.parse\<close>'s
  \<open>SyntaxError\<close>, which a string with a raw control character raises; a line
  that starts with \<open>/*\<close> and ends with \<open>*/\<close> is one comment token, the
  regular expression being greedy. Builder:
  the cursor advances and every node's raw text is the concatenation of the
  tokens it consumed; the fuel \<open>2 * length tokens + 1\<close> is enough and further
  fuel changes nothing; the object view of \<open>extractValues\<close> is the array view
  paired up; the builder refines a JSON parser (\<open>parse_tokens_refines_json\<close>);
  it returns a tree exactly on the streams that start with a well-bracketed item,
  its loops always reaching their closing token there, and on a stream cut off
  inside containers it always fails by reading past the end of the tokens.
  Queries: \<open>findAtPosition\<close> finds leaves whose range contains the position and
  returns \<open>null\<close> exactly outside the root; in built trees the key/value duality
  and array indexing of the specification hold, and an object's closing brace has
  no parent. Path inference: comments and whitespace do not matter; a value is
  expected only over a non-empty stack; the two loops agree on whether a key comes
  next; inside an array the table takes the second string element for a key, in
  \<open>getPathInObject\<close> and in \<open>getPositionOfKeys\<close> alike.
  Declarations: \<open>getPathInObject\<close> returns its declared \<open>[string[], boolean]\<close> on
  every tokenized text, but number and literal tokens do not have the declared
  \<open>value: string\<close>.
  Across components: the root built from the tokens of a text reproduces a prefix
  of that text; printing a JSON value without escapes, tokenizing the text and
  building the tree gives back the value and the text
  (\<open>print_tokenize_parse_roundtrip\<close>); on the text before a cursor inside
  objects without arrays, \<open>getPathInObject(tokenize(text))\<close> is the path of
  pending keys, with the flag true exactly when a value of an unfinished member
  comes next (\<open>get_path_in_object_open_objects\<close>); after an array of objects the
  table has popped one frame per object and expects a key
  (\<open>path_array_of_objects\<close>); and a text that starts with whitespace builds
  a tree that is that whitespace alone, so the specification's round trip fails
  on it (\<open>roundtrip_leading_whitespace\<close>).

  \<^bold>\<open>Fuel.\<close> The recursive descent spends one unit per call of
  \<open>parse_tokens_from\<close> or \<open>parse_children\<close>. A call at cursor \<open>c\<close> never
  needs more than \<open>2 * (length tokens - c) + 2\<close> units, since every loop
  iteration consumes at least one token and every nesting consumes the opening
  bracket; \<open>parse_fuel_enough\<close> proves it, so the fuel is no restriction.

  \<^bold>\<open>Not modelled.\<close> The IEEE-754 value of a number token (kept as its numeral;
  no operation reads it), \<open>console.error\<close> logging, module exports, and the
  test suites \<open>src/src/*.test.js\<close> with their harness (\<open>test\<close>, \<open>expect\<close>,
  module loading); the suites' behaviours are covered by the general theorems
  above, not replayed input by input (two tests of
  \<open>json-parse-ast.test.js\<close> call \<open>tokenize.tokenize\<close> on the function
  \<open>tokenize\<close> and fail with a \<open>TypeError\<close> before any code of the program
  runs). The verbatim copies of the tokenizer and the path inference in \<open>src/src/json-parse-ast.js\<close> and the builder and
  \<open>findAtPosition\<close> in \<open>src/src/json-parse.js\<close> are the same code and are
  covered by the same definitions, not modelled twice: up to layout,
  \<open>src/src/json-parse.js\<close> is the builder and \<open>findAtPosition\<close> of
  \<open>src/src/json-parse-ast.js\<close> without the \<open>extractValues\<close> methods, which the
  model derives from a container's children rather than storing in the node, so
  its trees are the model's trees.
\<close>

section \<open>The inputs of the examples\<close>

text \<open>Scenario 5 of the specification, and a small array.\<close>

definition ex5 :: jstring where "ex5 = js ''{\"foo\":\"bar\",\"foo2\":{\"hallo\":\"welt\"}}''"

definition ex_arr :: jstring where "ex_arr = js ''[10, true]''"

lemmas ex_eval = ex5_def ex_arr_def tokenize_eval parse_eval is_value_node_def

section \<open>Tokenizer and builder together\<close>

text \<open>
  C1: the tree the builder returns for the tokens of a text reproduces a prefix of
  that text, byte for byte, comments and whitespace included.
\<close>

theorem parse_tokenize_raw_prefix:
  assumes "tokenize s = Inr ts" and "parse_tokens ts = Inr n"
  shows "prefix (ast_raw n) s"
proof -
  from tokenize_loop_inv [of s 0 start_pos "[]" ts] assms(1)
  obtain k where k: "concat (map raw ts) = take k s" by (auto simp: tokenize_def)
  from assms(2) obtain c where "parse_tokens_from (parse_fuel ts) ts 0 = Inr (c, n)"
    by (auto simp: parse_tokens_def split: sum.splits)
  from parse_progress(1) [OF this] have n: "ast_raw n = concat (map raw (take c ts))" by simp
  have "s = concat (map raw (take c ts)) @ concat (map raw (drop c ts)) @ drop k s"
    using k by (metis append_take_drop_id concat_append map_append append.assoc)
  with n show ?thesis by (metis prefixI)
qed

theorem parse_tokenize_raw_prefix_witness:
  "tokenize (js ''{\"foo\":\"bar\"}'') = Inr (projr (tokenize (js ''{\"foo\":\"bar\"}''))) \<and>
   parse_tokens (projr (tokenize (js ''{\"foo\":\"bar\"}'')))
     = Inr (projr (parse_tokens (projr (tokenize (js ''{\"foo\":\"bar\"}''))))) \<and>
   prefix (ast_raw (projr (parse_tokens (projr (tokenize (js ''{\"foo\":\"bar\"}''))))))
     (js ''{\"foo\":\"bar\"}'')"
proof -
  have t: "tokenize (js ''{\"foo\":\"bar\"}'') = Inr (projr (tokenize (js ''{\"foo\":\"bar\"}'')))"
    by (simp add: tokenize_eval)
  have p: "parse_tokens (projr (tokenize (js ''{\"foo\":\"bar\"}'')))
     = Inr (projr (parse_tokens (projr (tokenize (js ''{\"foo\":\"bar\"}'')))))"
    by (simp add: tokenize_eval parse_eval)
  from t p parse_tokenize_raw_prefix [OF t p] show ?thesis by simp
qed

section \<open>Witnesses for the builder's properties\<close>

theorem parse_tokens_raw_witness:
  "parse_tokens (projr (tokenize (js '' {}''))) = Inr (projr (parse_tokens (projr (tokenize (js '' {}''))))) \<and>
   (\<exists>c. 0 < c \<and> c \<le> length (projr (tokenize (js '' {}''))) \<and>
        ast_raw (projr (parse_tokens (projr (tokenize (js '' {}''))))) =
          concat (map raw (take c (projr (tokenize (js '' {}''))))))"
proof -
  have p: "parse_tokens (projr (tokenize (js '' {}''))) = Inr (projr (parse_tokens (projr (tokenize (js '' {}'')))))"
    by (simp add: tokenize_eval parse_eval)
  show ?thesis using p parse_tokens_raw [OF p] by blast
qed

theorem parse_fuel_enough_witness:
  "parse_fuel (projr (tokenize (js ''[1,2]''))) \<le> parse_fuel (projr (tokenize (js ''[1,2]''))) + 3 \<and>
   parse_tokens_from (parse_fuel (projr (tokenize (js ''[1,2]''))) + 3) (projr (tokenize (js ''[1,2]''))) 0
     \<noteq> Inl Out_of_fuel \<and>
   parse_tokens_from (parse_fuel (projr (tokenize (js ''[1,2]''))) + 3) (projr (tokenize (js ''[1,2]''))) 0
     = parse_tokens_from (parse_fuel (projr (tokenize (js ''[1,2]'')))) (projr (tokenize (js ''[1,2]''))) 0"
proof -
  have h: "parse_fuel (projr (tokenize (js ''[1,2]''))) \<le> parse_fuel (projr (tokenize (js ''[1,2]''))) + 3"
    by (rule le_add1)
  show ?thesis using h parse_fuel_enough [OF h] by blast
qed

section \<open>Witnesses for the query layer\<close>

theorem get_key_in_parent_object_witness:
  "get_key_in_parent (projr (parse_tokens (projr (tokenize ex5)))) ([] @ [7]) =
     Inr (map_option KValue (ast_value (ast_children (projr (parse_tokens (projr (tokenize ex5)))) ! 5))) \<and>
   map_option KValue (ast_value (ast_children (projr (parse_tokens (projr (tokenize ex5)))) ! 5)) =
     Some (KValue (JString (js ''foo2'')))"
proof -
  define R where "R = projr (parse_tokens (projr (tokenize ex5)))"
  have p: "parse_tokens (projr (tokenize ex5)) = Inr R" by (simp add: R_def ex_eval)
  have n: "node_at R [] = Some (Container Object (ast_children R) (ast_position R) False)"
    by (simp add: R_def ex_eval)
  have m: "(Some 5, 7) \<in> set (extract_values_object (ast_children R) 0 True None)"
    by (simp add: R_def ex_eval)
  have v: "map_option KValue (ast_value (ast_children R ! 5)) = Some (KValue (JString (js ''foo2'')))"
    by (simp add: R_def ex_eval)
  show ?thesis using get_key_in_parent_object [OF p n m] v by (simp add: R_def)
qed

theorem is_key_in_parent_object_witness:
  "is_key_in_parent (projr (parse_tokens (projr (tokenize ex5)))) ([7] @ [3]) = Inr False \<and>
   is_key_in_parent (projr (parse_tokens (projr (tokenize ex5)))) ([7] @ [1]) =
     Inr (is_string_literal (ast_children (ast_children (projr (parse_tokens (projr (tokenize ex5)))) ! 7) ! 1))"
proof -
  define R where "R = projr (parse_tokens (projr (tokenize ex5)))"
  define Ob where "Ob = ast_children R ! 7"
  have p: "parse_tokens (projr (tokenize ex5)) = Inr R" by (simp add: R_def ex_eval)
  have n: "node_at R [7] = Some (Container Object (ast_children Ob) (ast_position Ob) True)"
    by (simp add: R_def Ob_def ex_eval)
  have m: "(Some 1, 3) \<in> set (extract_values_object (ast_children Ob) 0 True None)"
    by (simp add: R_def Ob_def ex_eval)
  show ?thesis using is_key_in_parent_object [OF p n m] by (simp add: R_def Ob_def)
qed

theorem get_key_in_parent_array_witness:
  "get_key_in_parent (projr (parse_tokens (projr (tokenize ex_arr))))
     ([] @ [extract_values_array (ast_children (projr (parse_tokens (projr (tokenize ex_arr))))) 0 ! 1])
   = Inr (Some (KIndex 1))"
proof -
  define R where "R = projr (parse_tokens (projr (tokenize ex_arr)))"
  have p: "parse_tokens (projr (tokenize ex_arr)) = Inr R" by (simp add: R_def ex_eval)
  have n: "node_at R [] = Some (Container Array (ast_children R) (ast_position R) False)"
    by (simp add: R_def ex_eval)
  have i: "1 < length (extract_values_array (ast_children R) 0)"
    by (simp add: R_def ex_eval)
  show ?thesis using get_key_in_parent_array [OF p n i] by (simp add: R_def)
qed

theorem closing_delimiter_parent_witness:
  "ast_children (projr (parse_tokens (projr (tokenize ex5)))) \<noteq> [] \<and>
   parent_ref (projr (parse_tokens (projr (tokenize ex5))))
     ([] @ [length (ast_children (projr (parse_tokens (projr (tokenize ex5))))) - 1]) = None"
proof -
  define R where "R = projr (parse_tokens (projr (tokenize ex5)))"
  have p: "parse_tokens (projr (tokenize ex5)) = Inr R" by (simp add: R_def ex_eval)
  have n: "node_at R [] = Some (Container Object (ast_children R) (ast_position R) False)"
    by (simp add: R_def ex_eval)
  show ?thesis using closing_delimiter_parent [OF p n] by (simp add: R_def)
qed

theorem find_at_position_found_witness:
  "\<exists>k r v rg b.
     node_at (projr (parse_tokens (projr (tokenize ex5)))) [7, 1] = Some (Leaf k r v rg b) \<and>
     in_range \<lparr>lineNumber = 1, column = 25\<rparr> rg \<and>
     in_range \<lparr>lineNumber = 1, column = 25\<rparr> (ast_position (projr (parse_tokens (projr (tokenize ex5)))))"
proof -
  define R where "R = projr (parse_tokens (projr (tokenize ex5)))"
  have f: "find_at_position R \<lparr>lineNumber = 1, column = 25\<rparr> = JSNode [7, 1]"
    by (simp add: R_def ex_eval in_range_def)
  show ?thesis using find_at_position_found [OF f] by (simp add: R_def)
qed

section \<open>Witnesses for the path inference\<close>

theorem keys_path_agree_witness:
  "snd (get_path_in_object (projr (tokenize (js ''{\"a\":1,\"b\":'')))) =
     (\<not> key_next (keys_run (projr (tokenize (js ''{\"a\":1,\"b\":''))) keys_init))"
proof -
  have h: "list_all (\<lambda>t. \<not> is_punct t ''['' \<and> \<not> is_punct t '']'') (projr (tokenize (js ''{\"a\":1,\"b\":'')))"
    by (simp add: tokenize_eval is_punct_def)
  show ?thesis by (rule keys_path_agree [OF h])
qed

theorem path_array_second_element_key_witness:
  "get_path_in_object (take 3 (projr (tokenize (js ''{\"a\":[\"x\",\"y\"''))) @
      [projr (tokenize (js ''{\"a\":[\"x\",\"y\"'')) ! 3, projr (tokenize (js ''{\"a\":[\"x\",\"y\"'')) ! 4,
       projr (tokenize (js ''{\"a\":[\"x\",\"y\"'')) ! 5, projr (tokenize (js ''{\"a\":[\"x\",\"y\"'')) ! 6]) =
   (fst (get_path_in_object (take 3 (projr (tokenize (js ''{\"a\":[\"x\",\"y\"''))))) @
      filter (\<lambda>f. f \<noteq> list_marker) [tvalue (projr (tokenize (js ''{\"a\":[\"x\",\"y\"'')) ! 6)], True)"
proof -
  have l: "is_punct (projr (tokenize (js ''{\"a\":[\"x\",\"y\"'')) ! 3) ''[''"
    by (simp add: tokenize_eval is_punct_def)
  have x: "ttype (projr (tokenize (js ''{\"a\":[\"x\",\"y\"'')) ! 4) = TString"
    by (simp add: tokenize_eval)
  have c: "is_punct (projr (tokenize (js ''{\"a\":[\"x\",\"y\"'')) ! 5) '',''"
    by (simp add: tokenize_eval is_punct_def)
  have y: "ttype (projr (tokenize (js ''{\"a\":[\"x\",\"y\"'')) ! 6) = TString"
    by (simp add: tokenize_eval)
  show ?thesis by (rule path_array_second_element_key [OF l x c y])
qed

theorem keys_array_second_element_key_witness:
  "get_position_of_keys ([punct ''{'', str_tok (js ''a''), punct '':''] @
      [punct ''['', str_tok (js ''x''), punct '','', str_tok (js ''y'')]) =
   get_position_of_keys [punct ''{'', str_tok (js ''a''), punct '':''] @ [position (str_tok (js ''y''))]"
proof -
  have k: "\<not> key_next (keys_run [punct ''{'', str_tok (js ''a''), punct '':''] keys_init)"
    by (simp add: keys_eval punct_def str_tok_def mk_tok_def js_def)
  have t: "is_punct (punct ''['') ''[''" "ttype (str_tok (js ''x'')) = TString"
    "is_punct (punct '','') '',''" "ttype (str_tok (js ''y'')) = TString"
    by (simp_all add: is_punct_def punct_def str_tok_def mk_tok_def js_def)
  show ?thesis by (rule keys_array_second_element_key [OF k t])
qed

section \<open>Tokenizer and builder on text with leading whitespace\<close>

text \<open>
  C30: the specification's round trip \<open>parse(tokenize(s)).raw === s\<close> fails on every
  text that starts with whitespace and goes on with something else: the first token is
  the whitespace, and \<open>parseTokens\<close> parses one node from index 0, so the tree is
  that whitespace alone.
\<close>

theorem roundtrip_leading_whitespace:
  assumes "w \<noteq> []" "list_all is_js_space w" "t \<noteq> []" "\<not> is_js_space (hd t)"
    and "tokenize (w @ t) = Inr ts"
  shows "\<exists>n. parse_tokens ts = Inr n \<and> ast_raw n = w \<and> ast_raw n \<noteq> w @ t"
proof -
  obtain a w' where aw: "w = a # w'" using assms(1) by (cases w) auto
  have a: "a \<noteq> 47" using assms(2) aw by (auto simp: is_js_space_def)
  have tw: "takeWhile is_js_space (w @ t) = w"
    using assms(2-4) by (cases t) (simp_all add: takeWhile_append2 list_all_iff)
  have m: "match_token (w @ t) = Some (create_whitespace, length w)"
    using tw a assms(1) aw
    by (simp add: match_token_def token_types_def match_inline_comment_def
        match_multiline_comment_def match_whitespace_def js_def)
  define tok where "tok = \<lparr>ttype = TWhitespace, position = token_range start_pos (advance start_pos w),
                             raw = w, tvalue = JString w\<rparr>"
  have "tokenize (w @ t) = tokenize_loop (w @ t) (length w) (advance start_pos w) [tok]"
    unfolding tokenize_def using m assms(1)
    by (subst tokenize_loop.simps) (simp add: tok_def create_whitespace_def Let_def del: tokenize_loop.simps)
  with assms(5) obtain ts' where ts: "ts = tok # ts'"
    using tokenize_loop_inv [of "w @ t" "length w" "advance start_pos w" "[tok]" ts] by auto
  show ?thesis
    using assms(3) by (simp add: ts parse_tokens_def parse_fuel_def leaf_parsers tok_def)
qed

theorem roundtrip_leading_whitespace_witness:
  "\<exists>n. parse_tokens (projr (tokenize (js '' {}''))) = Inr n \<and> ast_raw n = js '' '' \<and>
     ast_raw n \<noteq> js '' '' @ js ''{}''"
proof -
  have w: "js '' '' \<noteq> []" "list_all is_js_space (js '' '')" by (simp_all add: js_def is_js_space_def)
  have t: "js ''{}'' \<noteq> []" "\<not> is_js_space (hd (js ''{}''))" by (simp_all add: js_def is_js_space_def)
  have k: "tokenize (js '' '' @ js ''{}'') = Inr (projr (tokenize (js '' {}'')))"
    by (simp add: tokenize_eval lexer_eval)
  show ?thesis using roundtrip_leading_whitespace [OF w t k] by simp
qed

section \<open>Witnesses for the builder's refinement, the tokenizer's shape and bounds, and the path invariant\<close>

theorem parse_tokens_refines_json_witness:
  "\<exists>n. parse_tokens (json_tokens (JObj [(js ''a'', JArr [JNum (js ''12''), JNul, JStr (js ''x'')]), (js ''b'', JBoolean True)]))
     = Inr n \<and> ast_json n = Some (JObj [(js ''a'', JArr [JNum (js ''12''), JNul, JStr (js ''x'')]), (js ''b'', JBoolean True)])"
proof -
  have ok: "json_ok (JObj [(js ''a'', JArr [JNum (js ''12''), JNul, JStr (js ''x'')]), (js ''b'', JBoolean True)])"
    by (simp add: match_number_def int_part_len_def frac_len_def exp_len_def digits_len_def is_digit_def js_def)
  show ?thesis by (rule parse_tokens_refines_json [OF ok])
qed

theorem path_reachable_value_frame_witness:
  "next_string_will_be_key (path_run (projr (tokenize (js ''{\"a\":['')))  path_init) \<or>
   0 < length (stack (path_run (projr (tokenize (js ''{\"a\":['')))  path_init))"
proof -
  have r: "path_reachable (path_run (projr (tokenize (js ''{\"a\":['')))  path_init)"
    by (rule path_run_reachable [OF path_reachable.init])
  show ?thesis by (rule path_reachable_value_frame [OF r])
qed

end
